theory Spec2Isabelle
  imports Main "HOL-Library.Word" "HOL-Library.Sublist"
begin

section \<open>Bytes, decoded text and the string operations the scripts use\<close>

text \<open>
  The scripts accumulate \<^verbatim>\<open>bytes\<close> from \<^verbatim>\<open>recv\<close> and inspect the \<^verbatim>\<open>str\<close> obtained by
  \<^verbatim>\<open>all_data.decode('utf-8', 'replace')\<close>. A byte is an 8-bit word; a decoded text is the
  list of its Unicode code points. \<open>str\<close> and \<open>bytes_of\<close> read an ASCII literal of the
  source as a text and as a byte string.
\<close>

type_synonym byte = "8 word"
type_synonym pystr = "nat list"

definition str :: "string \<Rightarrow> pystr" where
  "str s = map of_char s"

definition bytes_of :: "string \<Rightarrow> byte list" where
  "bytes_of s = map of_char s"

text \<open>
  Python's \<^verbatim>\<open>str.strip\<close>, \<^verbatim>\<open>str.rstrip\<close> and the \<^verbatim>\<open>\s\<close> class of \<^verbatim>\<open>re\<close> on \<^verbatim>\<open>str\<close> patterns
  all use the same set of whitespace code points.
\<close>

definition isspace :: "nat \<Rightarrow> bool" where
  "isspace c \<longleftrightarrow>
     (0x09 \<le> c \<and> c \<le> 0x0D) \<or> (0x1C \<le> c \<and> c \<le> 0x20) \<or> c = 0x85 \<or> c = 0xA0 \<or>
     c = 0x1680 \<or> (0x2000 \<le> c \<and> c \<le> 0x200A) \<or> c = 0x2028 \<or> c = 0x2029 \<or>
     c = 0x202F \<or> c = 0x205F \<or> c = 0x3000"

definition lstrip :: "pystr \<Rightarrow> pystr" where
  "lstrip t = dropWhile isspace t"

definition rstrip :: "pystr \<Rightarrow> pystr" where
  "rstrip t = rev (dropWhile isspace (rev t))"

definition strip :: "pystr \<Rightarrow> pystr" where
  "strip t = rstrip (lstrip t)"

text \<open>\<^verbatim>\<open>t.endswith('}')\<close>: the text is not empty and its last code point is \<open>}\<close>.\<close>

definition endswith_brace :: "pystr \<Rightarrow> bool" where
  "endswith_brace t \<longleftrightarrow> suffix (str ''}'') t"

text \<open>
  \<^verbatim>\<open>t.split('\n')\<close>: always at least one piece; an empty text gives one empty piece and a
  trailing newline gives a last empty piece.
\<close>

fun split_nl :: "pystr \<Rightarrow> pystr list" where
  "split_nl [] = [[]]"
| "split_nl (c # cs) =
     (if c = 0x0A then [] # split_nl cs
      else (c # hd (split_nl cs)) # tl (split_nl cs))"

text \<open>
  \<^verbatim>\<open>needle in hay\<close> on two \<^verbatim>\<open>str\<close> values is \<^term>\<open>sublist needle hay\<close>: the needle occurs
  as a contiguous run.
\<close>

subsection \<open>UTF-8 decoding with replacement\<close>

text \<open>
  \<^verbatim>\<open>bytes.decode('utf-8', 'replace')\<close> never raises. One step reads the sequence that starts
  at the lead byte \<open>ch\<close> and returns the code point and the number of bytes it used; an
  invalid start byte, an invalid continuation byte or a sequence cut off by the end of the
  data gives U+FFFD for the bytes read so far (overlong forms and surrogates are invalid).
\<close>

definition is_cont :: "byte \<Rightarrow> bool" where
  "is_cont b \<longleftrightarrow> 0x80 \<le> b \<and> b < 0xC0"

definition utf8_step :: "byte \<Rightarrow> byte list \<Rightarrow> nat \<times> nat" where
  "utf8_step ch rest =
     (if ch < 0x80 then (unat ch, 1)
      else if ch < 0xC2 then (0xFFFD, 1)
      else if ch < 0xE0 then
        (case rest of
           [] \<Rightarrow> (0xFFFD, 1)
         | ch2 # _ \<Rightarrow>
             if \<not> is_cont ch2 then (0xFFFD, 1)
             else ((unat ch - 0xC0) * 64 + (unat ch2 - 0x80), 2))
      else if ch < 0xF0 then
        (case rest of
           [] \<Rightarrow> (0xFFFD, 1)
         | ch2 # r2 \<Rightarrow>
             if \<not> is_cont ch2 \<or> (if ch2 < 0xA0 then ch = 0xE0 else ch = 0xED)
             then (0xFFFD, 1)
             else (case r2 of
                     [] \<Rightarrow> (0xFFFD, 2)
                   | ch3 # _ \<Rightarrow>
                       if \<not> is_cont ch3 then (0xFFFD, 2)
                       else ((unat ch - 0xE0) * 4096 + (unat ch2 - 0x80) * 64
                             + (unat ch3 - 0x80), 3)))
      else if ch < 0xF5 then
        (case rest of
           [] \<Rightarrow> (0xFFFD, 1)
         | ch2 # r2 \<Rightarrow>
             if \<not> is_cont ch2 \<or> (if ch2 < 0x90 then ch = 0xF0 else ch = 0xF4)
             then (0xFFFD, 1)
             else (case r2 of
                     [] \<Rightarrow> (0xFFFD, 2)
                   | ch3 # r3 \<Rightarrow>
                       if \<not> is_cont ch3 then (0xFFFD, 2)
                       else (case r3 of
                               [] \<Rightarrow> (0xFFFD, 3)
                             | ch4 # _ \<Rightarrow>
                                 if \<not> is_cont ch4 then (0xFFFD, 3)
                                 else ((unat ch - 0xF0) * 262144 + (unat ch2 - 0x80) * 4096
                                       + (unat ch3 - 0x80) * 64 + (unat ch4 - 0x80), 4))))
      else (0xFFFD, 1))"

fun decode :: "byte list \<Rightarrow> pystr" where
  "decode [] = []"
| "decode (ch # rest) =
     (case utf8_step ch rest of (c, n) \<Rightarrow> c # decode (drop (n - 1) rest))"

section \<open>The peer as a trace of socket events\<close>

text \<open>
  Each pass of a read loop first evaluates \<^verbatim>\<open>time.time() - start < timeout\<close> and then calls
  \<^verbatim>\<open>s.recv\<close>. An event is what the environment supplies for one pass: the elapsed time
  read by the loop condition and what \<^verbatim>\<open>recv\<close> does. \<open>Data []\<close> is the empty result of a
  closed connection. A loop that has used up the trace without leaving is still running:
  the model returns \<open>None\<close> for it.
\<close>

datatype recv_result = Data "byte list" | SocketTimeout | OtherException

type_synonym event = "nat \<times> recv_result"

datatype exit_reason =
  Completed | ClosedEarly | TimedOut | Failed | DeadlineElapsed | SentinelSeen | NotStarted

datatype exc = ConnectRaised | SendRaised

datatype 'a outcome = Returned 'a | Raised exc

text \<open>
  The environment of one session: whether \<^verbatim>\<open>s.connect\<close> and \<^verbatim>\<open>s.sendall\<close> succeed, and the
  events of the read loop. The result of a session function pairs the number of
  \<^verbatim>\<open>s.close()\<close> calls made on the session's socket with what the function returned or
  raised.
\<close>

record env =
  connect_ok :: bool
  send_ok :: bool
  events :: "event list"

section \<open>gen\_and\_run.py: send\_command\<close>

text \<open>Lines 20 to 22: the nested test that leaves the loop.\<close>

definition is_complete :: "pystr \<Rightarrow> bool" where
  \<open>is_complete decoded \<longleftrightarrow>
     (sublist (str ''"status":"success"'') decoded
      \<or> sublist (str ''"status":"complete"'') decoded
      \<or> sublist (str ''"status":"failed"'') decoded)
     \<and> endswith_brace (rstrip decoded)\<close>

fun read_loop :: "nat \<Rightarrow> event list \<Rightarrow> byte list \<Rightarrow> (exit_reason \<times> byte list) option" where
  "read_loop timeout [] all_data = None"
| "read_loop timeout ((t, r) # evs) all_data =
     (if \<not> t < timeout then Some (DeadlineElapsed, all_data)
      else case r of
        Data chunk \<Rightarrow>
          if chunk \<noteq> [] then
            (if is_complete (decode (all_data @ chunk))
             then Some (Completed, all_data @ chunk)
             else read_loop timeout evs (all_data @ chunk))
          else Some (ClosedEarly, all_data)
      | SocketTimeout \<Rightarrow> Some (TimedOut, all_data)
      | OtherException \<Rightarrow> Some (Failed, all_data))"

definition send_command :: "nat \<Rightarrow> env \<Rightarrow> (nat \<times> pystr outcome) option" where
  "send_command timeout e =
     (if \<not> connect_ok e then Some (0, Raised ConnectRaised)
      else if \<not> send_ok e then Some (0, Raised SendRaised)
      else case read_loop timeout (events e) [] of
             None \<Rightarrow> None
           | Some (reason, all_data) \<Rightarrow> Some (1, Returned (decode all_data)))"

section \<open>test\_full\_flow.py: send\_command, and the identifier and success scans\<close>

text \<open>
  The state of a loop that prints as it reads: the accumulated bytes, the set of raw lines
  already handled, and what has been written to standard output so far.
\<close>

record 'o loop_state =
  all_data :: "byte list"
  printed :: "pystr set"
  out :: "'o list"

text \<open>
  The \<^verbatim>\<open>for line in lines\<close> loop (lines 25 to 36). \<open>render line\<close> stands for the body of
  the \<^verbatim>\<open>try\<close>: what \<^verbatim>\<open>json.loads\<close> and the tests for \<^verbatim>\<open>log\<close> and \<^verbatim>\<open>progress\<close> print for the
  line, \<open>None\<close> when nothing is printed (the line does not parse, the object has neither
  field, or building the message raises: the bare \<^verbatim>\<open>except\<close> swallows all of it). The line
  is added to \<^verbatim>\<open>printed\<close> in every case.
\<close>

fun for_lines :: "(pystr \<Rightarrow> 'o option) \<Rightarrow> pystr list \<Rightarrow> pystr set \<times> 'o list \<Rightarrow> pystr set \<times> 'o list" where
  "for_lines render [] st = st"
| "for_lines render (line # lines) (seen, outp) =
     (if line \<noteq> [] \<and> line \<notin> seen
      then for_lines render lines
             (insert line seen, (case render line of None \<Rightarrow> outp | Some x \<Rightarrow> outp @ [x]))
      else for_lines render lines (seen, outp))"

text \<open>
  The lines that one run of this loop handles, in order: the non-empty lines that are not
  in the set yet, each one once. It is used to describe what \<open>for_lines\<close> does.
\<close>

fun fresh_lines :: "pystr list \<Rightarrow> pystr set \<Rightarrow> pystr list" where
  "fresh_lines [] seen = []"
| "fresh_lines (line # lines) seen =
     (if line \<noteq> [] \<and> line \<notin> seen then line # fresh_lines lines (insert line seen)
      else fresh_lines lines seen)"

fun full_flow_loop ::
  "(pystr \<Rightarrow> 'o option) \<Rightarrow> nat \<Rightarrow> event list \<Rightarrow> 'o loop_state \<Rightarrow> (exit_reason \<times> 'o loop_state) option" where
  "full_flow_loop render timeout [] st = None"
| "full_flow_loop render timeout ((t, r) # evs) st =
     (if \<not> t < timeout then Some (DeadlineElapsed, st)
      else case r of
        Data chunk \<Rightarrow>
          if chunk \<noteq> [] then
            (let data = all_data st @ chunk;
                 decoded = decode data;
                 (seen, outp) = for_lines render (split_nl (strip decoded)) (printed st, out st);
                 st' = \<lparr>all_data = data, printed = seen, out = outp\<rparr>
             in if is_complete decoded then Some (Completed, st')
                else full_flow_loop render timeout evs st')
          else Some (ClosedEarly, st)
      | SocketTimeout \<Rightarrow> Some (TimedOut, st)
      | OtherException \<Rightarrow> Some (Failed, st))"

text \<open>
  \<open>send_command\<close> of test\_full\_flow.py returns the decoded buffer; the lines it printed on
  the way are returned beside it.
\<close>

definition full_flow_send_command ::
  "(pystr \<Rightarrow> 'o option) \<Rightarrow> nat \<Rightarrow> env \<Rightarrow> (nat \<times> ('o list \<times> pystr) outcome) option" where
  "full_flow_send_command render timeout e =
     (if \<not> connect_ok e then Some (0, Raised ConnectRaised)
      else if \<not> send_ok e then Some (0, Raised SendRaised)
      else case full_flow_loop render timeout (events e)
                  \<lparr>all_data = [], printed = {}, out = []\<rparr> of
             None \<Rightarrow> None
           | Some (reason, st) \<Rightarrow> Some (1, Returned (out st, decode (all_data st))))"

text \<open>
  Two ways in which the peer's bytes can reach the loop: \<open>one_byte_reads ts bs\<close> delivers
  \<open>bs\<close> one byte per \<^verbatim>\<open>recv\<close>, with the clock readings \<open>ts\<close>; a single event \<open>(t, Data bs)\<close>
  delivers them in one \<^verbatim>\<open>recv\<close> (which needs \<open>bs\<close> to fit the buffer size of 4096).
\<close>

definition one_byte_reads :: "nat list \<Rightarrow> byte list \<Rightarrow> event list" where
  "one_byte_reads ts bs = zip ts (map (\<lambda>b. Data [b]) bs)"

text \<open>The lines that the loop walks through when the buffer is \<open>bs\<close> (lines 22 and 24).\<close>

abbreviation lines_of :: "byte list \<Rightarrow> pystr list" where
  "lines_of bs \<equiv> split_nl (strip (decode bs))"

text \<open>
  The handler of lines 27 to 35 on the lines of one example: for the line \<^verbatim>\<open>{"log":"x"}\<close> it
  prints the message of the \<^verbatim>\<open>log\<close> field; the object \<^verbatim>\<open>{"status":"success"}\<close> has neither
  field and every proper prefix of it fails to parse, so nothing is printed for them.
\<close>

definition log_x_render :: "pystr \<Rightarrow> pystr option" where
  \<open>log_x_render line = (if line = str ''{"log":"x"}'' then Some (str ''  LOG: x'') else None)\<close>

text \<open>
  \<^verbatim>\<open>re.search(r'"id":\s*"([^"]+)"', result)\<close> (gen\_and\_run.py line 42, test\_full\_flow.py
  line 61). \<open>match_id_here\<close> tries the pattern at the start of the text: the literal, the
  longest run of whitespace, a quote, the longest non-empty run of characters other than a
  quote, and a closing quote. Giving back part of a greedy run never helps here, since the
  character that must follow is excluded from the run. \<open>search_id\<close> returns group 1 of the
  leftmost match.
\<close>

definition match_id_here :: "pystr \<Rightarrow> pystr option" where
  \<open>match_id_here t =
     (if prefix (str ''"id":'') t then
        (case dropWhile isspace (drop 5 t) of
           [] \<Rightarrow> None
         | q # r \<Rightarrow>
             if q = 0x22 \<and> takeWhile (\<lambda>c. c \<noteq> 0x22) r \<noteq> [] \<and> dropWhile (\<lambda>c. c \<noteq> 0x22) r \<noteq> []
             then Some (takeWhile (\<lambda>c. c \<noteq> 0x22) r)
             else None)
      else None)\<close>

fun search_id :: "pystr \<Rightarrow> pystr option" where
  "search_id [] = match_id_here []"
| "search_id (c # cs) =
     (case match_id_here (c # cs) of Some g \<Rightarrow> Some g | None \<Rightarrow> search_id cs)"

text \<open>test\_full\_flow.py line 76.\<close>

definition success_scan :: "pystr \<Rightarrow> bool" where
  \<open>success_scan exec_result \<longleftrightarrow>
     sublist (str ''"success": true'') exec_result \<or> sublist (str ''"success":true'') exec_result\<close>

section \<open>run\_script.py: the printing read loop\<close>

datatype printed_item = Line pystr | ErrorLine

text \<open>Lines 24 to 26: only \<^verbatim>\<open>complete\<close> and \<^verbatim>\<open>success\<close> are looked for here.\<close>

definition run_script_complete :: "pystr \<Rightarrow> bool" where
  \<open>run_script_complete decoded \<longleftrightarrow>
     (sublist (str ''"status":"complete"'') decoded
      \<or> sublist (str ''"status":"success"'') decoded)
     \<and> endswith_brace (rstrip decoded)\<close>

text \<open>
  The loop of lines 13 to 33 with the deadline of 180 seconds. \<^verbatim>\<open>print(line)\<close> is the
  \<open>for_lines\<close> loop that prints every new line as it is.
\<close>

fun run_script_loop ::
  "event list \<Rightarrow> printed_item loop_state \<Rightarrow> (exit_reason \<times> printed_item loop_state) option" where
  "run_script_loop [] st = None"
| "run_script_loop ((t, r) # evs) st =
     (if \<not> t < 180 then Some (DeadlineElapsed, st)
      else case r of
        Data chunk \<Rightarrow>
          if chunk \<noteq> [] then
            (let data = all_data st @ chunk;
                 decoded = decode data;
                 (seen, outp) = for_lines (\<lambda>line. Some (Line line)) (split_nl (strip decoded))
                                  (printed st, out st);
                 st' = \<lparr>all_data = data, printed = seen, out = outp\<rparr>
             in if run_script_complete decoded then Some (Completed, st')
                else run_script_loop evs st')
          else Some (ClosedEarly, st)
      | SocketTimeout \<Rightarrow> run_script_loop evs st
      | OtherException \<Rightarrow> Some (Failed, st\<lparr>out := out st @ [ErrorLine]\<rparr>))"

definition run_script :: "event list \<Rightarrow> (exit_reason \<times> printed_item loop_state) option" where
  "run_script evs = run_script_loop evs \<lparr>all_data = [], printed = {}, out = []\<rparr>"

section \<open>test\_ai\_agent.py and test\_exclude\_live.py: the streaming loops\<close>

text \<open>
  What these loops write: a received line cut to a width, the closing message printed when
  a sentinel is seen, the waiting message of a read timeout, the message of another
  exception, and the message for a missing script id.
\<close>

datatype stream_item = Got pystr | DoneMsg | Waiting | ErrMsg | NoScriptId

text \<open>
  The \<^verbatim>\<open>for line in text.strip().split('\n')\<close> loop: every non-empty line is printed (cut to
  \<open>width\<close>); the first line that satisfies the sentinel test ends the function. The flag of
  the result says whether that happened.
\<close>

fun scan_lines :: "nat \<Rightarrow> (pystr \<Rightarrow> bool) \<Rightarrow> pystr list \<Rightarrow> stream_item list \<times> bool" where
  "scan_lines width sentinel [] = ([], False)"
| "scan_lines width sentinel (line # lines) =
     (if line \<noteq> [] then
        (if sentinel line then ([Got (take width line), DoneMsg], True)
         else (case scan_lines width sentinel lines of
                 (items, hit) \<Rightarrow> (Got (take width line) # items, hit)))
      else scan_lines width sentinel lines)"

text \<open>
  The \<^verbatim>\<open>while\<close> loop shared by the three functions. Only the bytes of the current \<^verbatim>\<open>recv\<close>
  are decoded: nothing is accumulated. An empty \<^verbatim>\<open>recv\<close> has no branch of its own, so the
  loop goes on.
\<close>

fun stream_loop ::
  "nat \<Rightarrow> nat \<Rightarrow> (pystr \<Rightarrow> bool) \<Rightarrow> event list \<Rightarrow> stream_item list
     \<Rightarrow> (exit_reason \<times> stream_item list) option" where
  "stream_loop deadline width sentinel [] outp = None"
| "stream_loop deadline width sentinel ((t, r) # evs) outp =
     (if \<not> t < deadline then Some (DeadlineElapsed, outp)
      else case r of
        Data data \<Rightarrow>
          if data \<noteq> [] then
            (case scan_lines width sentinel (split_nl (strip (decode data))) of
               (items, hit) \<Rightarrow>
                 if hit then Some (SentinelSeen, outp @ items)
                 else stream_loop deadline width sentinel evs (outp @ items))
          else stream_loop deadline width sentinel evs outp
      | SocketTimeout \<Rightarrow> stream_loop deadline width sentinel evs (outp @ [Waiting])
      | OtherException \<Rightarrow> Some (Failed, outp @ [ErrMsg]))"

text \<open>
  The two places where a streaming function closes its socket. At a sentinel the loop
  calls \<^verbatim>\<open>s.close()\<close> and returns (test\_ai\_agent.py lines 96 and 97), so the call at the
  end of the function (line 105) is not reached; on every other way out of the loop only
  the call at the end is made.
\<close>

definition closes_in_loop :: "exit_reason \<Rightarrow> nat" where
  "closes_in_loop reason = (if reason = SentinelSeen then 1 else 0)"

definition closes_after_loop :: "exit_reason \<Rightarrow> nat" where
  "closes_after_loop reason = (if reason = SentinelSeen then 0 else 1)"

text \<open>
  A streaming function: without a script id it returns before any socket is made
  (\<open>NotStarted\<close>); otherwise connect, send, and loop. An \<open>env\<close> describes the sessions in
  which every exception after \<^verbatim>\<open>sendall\<close> is one that the loop catches and every \<^verbatim>\<open>print\<close>
  succeeds; the sessions in which an exception leaves the loop are described by the call
  traces further down.
\<close>

definition stream_session ::
  "nat \<Rightarrow> nat \<Rightarrow> (pystr \<Rightarrow> bool) \<Rightarrow> env \<Rightarrow> (nat \<times> (exit_reason \<times> stream_item list) outcome) option" where
  "stream_session deadline width sentinel e =
     (if \<not> connect_ok e then Some (0, Raised ConnectRaised)
      else if \<not> send_ok e then Some (0, Raised SendRaised)
      else case stream_loop deadline width sentinel (events e) [] of
             None \<Rightarrow> None
           | Some (reason, items) \<Rightarrow>
               Some (closes_in_loop reason + closes_after_loop reason, Returned (reason, items)))"

definition script_sentinel :: "pystr \<Rightarrow> bool" where
  "script_sentinel line \<longleftrightarrow>
     sublist (str ''SCRIPT_COMPLETE'') line \<or> sublist (str ''SCRIPT_ERROR'') line"

definition goal_sentinel :: "pystr \<Rightarrow> bool" where
  "goal_sentinel line \<longleftrightarrow>
     sublist (str ''AI_GOAL_COMPLETE'') line \<or> sublist (str ''AI_GOAL_ERROR'') line"

definition execute_sentinel :: "pystr \<Rightarrow> bool" where
  \<open>execute_sentinel line \<longleftrightarrow>
     sublist (str ''status":"complete'') line \<or> sublist (str ''SCRIPT_ERROR'') line\<close>

text \<open>test\_ai\_agent.py, lines 66 to 105.\<close>

definition test_script_execute ::
  "pystr \<Rightarrow> env \<Rightarrow> (nat \<times> (exit_reason \<times> stream_item list) outcome) option" where
  "test_script_execute script_id e =
     (if script_id = [] then Some (0, Returned (NotStarted, [NoScriptId]))
      else stream_session 180 300 script_sentinel e)"

text \<open>test\_ai\_agent.py, lines 108 to 144.\<close>

definition test_run_ai_goal :: "env \<Rightarrow> (nat \<times> (exit_reason \<times> stream_item list) outcome) option" where
  "test_run_ai_goal e = stream_session 300 400 goal_sentinel e"

text \<open>test\_exclude\_live.py, lines 61 to 97.\<close>

definition test_execute ::
  "pystr \<Rightarrow> env \<Rightarrow> (nat \<times> (exit_reason \<times> stream_item list) outcome) option" where
  "test_execute script_id e =
     (if script_id = [] then Some (0, Returned (NotStarted, [NoScriptId]))
      else stream_session 180 300 execute_sentinel e)"

section \<open>The calls made on the socket\<close>

text \<open>
  To count the \<^verbatim>\<open>s.close()\<close> calls of a session, the session is read as the list of the
  calls it makes on its socket, in order, together with the way the function is left: by
  returning, or by an exception that propagates to the caller.
\<close>

datatype sock_call = Create | SetTimeout | Connect | SendAll | Recv | Close

datatype ending = Returns | Propagates

text \<open>
  What one pass of a loop meets: the elapsed time read by the loop condition, what
  \<^verbatim>\<open>s.recv\<close> does, and whether \<^verbatim>\<open>print\<close> works during the pass. \<open>Interrupted\<close> is an exception
  raised in \<^verbatim>\<open>recv\<close> that is not an \<^verbatim>\<open>Exception\<close> (a \<^verbatim>\<open>KeyboardInterrupt\<close>): a bare \<^verbatim>\<open>except\<close>
  catches it, \<^verbatim>\<open>except Exception\<close> does not. When \<^verbatim>\<open>print\<close> does not work (standard output
  is closed), every \<^verbatim>\<open>print\<close> of the pass raises an \<^verbatim>\<open>OSError\<close>.
\<close>

datatype recv_outcome = Gives recv_result | Interrupted

type_synonym pass = "nat \<times> recv_outcome \<times> bool"

record session =
  can_connect :: bool
  can_print :: bool
  can_send :: bool
  passes :: "pass list"

text \<open>
  gen\_and\_run.py, \<open>send_command\<close>: the calls of the loop of lines 13 to 28. Every exception
  raised in the \<^verbatim>\<open>try\<close> is caught, by \<^verbatim>\<open>except socket.timeout\<close> or by the bare \<^verbatim>\<open>except\<close>, and
  the loop is left by \<^verbatim>\<open>break\<close>; nothing is printed.
\<close>

fun send_command_loop_calls :: "nat \<Rightarrow> pass list \<Rightarrow> byte list \<Rightarrow> sock_call list option" where
  "send_command_loop_calls timeout [] buf = None"
| "send_command_loop_calls timeout ((t, r, ok) # ps) buf =
     (if \<not> t < timeout then Some []
      else case r of
        Gives (Data chunk) \<Rightarrow>
          if chunk \<noteq> [] then
            (if is_complete (decode (buf @ chunk)) then Some [Recv]
             else map_option ((#) Recv) (send_command_loop_calls timeout ps (buf @ chunk)))
          else Some [Recv]
      | Gives SocketTimeout \<Rightarrow> Some [Recv]
      | Gives OtherException \<Rightarrow> Some [Recv]
      | Interrupted \<Rightarrow> Some [Recv])"

text \<open>
  The whole function (lines 5 to 31): \<^verbatim>\<open>connect\<close> and \<^verbatim>\<open>sendall\<close> are outside every \<^verbatim>\<open>try\<close>,
  so an exception raised by them leaves the function at once; after the loop the socket
  is closed and the function returns.
\<close>

definition send_command_calls :: "nat \<Rightarrow> session \<Rightarrow> (sock_call list \<times> ending) option" where
  "send_command_calls timeout s =
     (if \<not> can_connect s then Some ([Create, SetTimeout, Connect], Propagates)
      else if \<not> can_send s then Some ([Create, SetTimeout, Connect, SendAll], Propagates)
      else case send_command_loop_calls timeout (passes s) [] of
             None \<Rightarrow> None
           | Some calls \<Rightarrow>
               Some ([Create, SetTimeout, Connect, SendAll] @ calls @ [Close], Returns))"

text \<open>
  test\_ai\_agent.py, \<open>test_script_execute\<close>: the loop of lines 85 to 103 is left in three
  ways: the condition fails or a \<^verbatim>\<open>break\<close> is reached; the function returns from inside
  the loop, after closing the socket; or an exception leaves the loop.
\<close>

datatype loop_left = LoopEnded | ReturnedInside | ExceptionLeft

text \<open>
  Each pass sets the timeout and calls \<^verbatim>\<open>recv\<close>. With data, the non-empty lines are printed
  one by one; when \<^verbatim>\<open>print\<close> raises, \<^verbatim>\<open>except Exception\<close> catches the error and its handler
  prints again, which raises out of the loop. A read timeout and any other \<^verbatim>\<open>Exception\<close>
  are handled by a \<^verbatim>\<open>print\<close> as well (followed by \<^verbatim>\<open>break\<close> for the latter), so they also
  raise out of the loop when \<^verbatim>\<open>print\<close> does not work. \<open>Interrupted\<close> is caught by no clause.
\<close>

fun stream_loop_calls ::
  "nat \<Rightarrow> (pystr \<Rightarrow> bool) \<Rightarrow> pass list \<Rightarrow> (sock_call list \<times> loop_left) option" where
  "stream_loop_calls deadline sentinel [] = None"
| "stream_loop_calls deadline sentinel ((t, r, ok) # ps) =
     (if \<not> t < deadline then Some ([], LoopEnded)
      else case r of
        Gives (Data data) \<Rightarrow>
          if data \<noteq> [] \<and> filter (\<lambda>l. l \<noteq> []) (split_nl (strip (decode data))) \<noteq> [] then
            (if \<not> ok then Some ([SetTimeout, Recv], ExceptionLeft)
             else if list_ex sentinel (filter (\<lambda>l. l \<noteq> []) (split_nl (strip (decode data))))
             then Some ([SetTimeout, Recv, Close], ReturnedInside)
             else map_option (\<lambda>(calls, left). (SetTimeout # Recv # calls, left))
                    (stream_loop_calls deadline sentinel ps))
          else map_option (\<lambda>(calls, left). (SetTimeout # Recv # calls, left))
                 (stream_loop_calls deadline sentinel ps)
      | Gives SocketTimeout \<Rightarrow>
          if ok then map_option (\<lambda>(calls, left). (SetTimeout # Recv # calls, left))
                       (stream_loop_calls deadline sentinel ps)
          else Some ([SetTimeout, Recv], ExceptionLeft)
      | Gives OtherException \<Rightarrow>
          if ok then Some ([SetTimeout, Recv], LoopEnded)
          else Some ([SetTimeout, Recv], ExceptionLeft)
      | Interrupted \<Rightarrow> Some ([SetTimeout, Recv], ExceptionLeft))"

text \<open>
  The whole function (lines 66 to 105). Without a script id no socket is made. The
  \<^verbatim>\<open>print\<close> calls between \<^verbatim>\<open>connect\<close> and the loop are outside every \<^verbatim>\<open>try\<close>, like \<^verbatim>\<open>connect\<close>
  and \<^verbatim>\<open>sendall\<close>. The socket is closed at the end of the function only when the loop has
  ended; a return from inside the loop has closed it already, and an exception that leaves
  the loop leaves the function.
\<close>

definition test_script_execute_calls :: "pystr \<Rightarrow> session \<Rightarrow> (sock_call list \<times> ending) option" where
  "test_script_execute_calls script_id s =
     (if script_id = [] then Some ([], if can_print s then Returns else Propagates)
      else if \<not> can_connect s then Some ([Create, SetTimeout, Connect], Propagates)
      else if \<not> can_print s then Some ([Create, SetTimeout, Connect], Propagates)
      else if \<not> can_send s then Some ([Create, SetTimeout, Connect, SendAll], Propagates)
      else case stream_loop_calls 180 script_sentinel (passes s) of
             None \<Rightarrow> None
           | Some (calls, LoopEnded) \<Rightarrow>
               Some ([Create, SetTimeout, Connect, SendAll] @ calls @ [Close], Returns)
           | Some (calls, ReturnedInside) \<Rightarrow>
               Some ([Create, SetTimeout, Connect, SendAll] @ calls, Returns)
           | Some (calls, ExceptionLeft) \<Rightarrow>
               Some ([Create, SetTimeout, Connect, SendAll] @ calls, Propagates))"

text \<open>
  An \<open>env\<close> read as a session: every \<^verbatim>\<open>recv\<close> gives one of the plain results and every
  \<^verbatim>\<open>print\<close> works.
\<close>

definition plain_session :: "env \<Rightarrow> session" where
  "plain_session e =
     \<lparr>can_connect = connect_ok e, can_print = True, can_send = send_ok e,
      passes = map (\<lambda>(t, r). (t, Gives r, True)) (events e)\<rparr>"

section \<open>Completion detection\<close>


lemma not_isspace_brace: "\<not> isspace 125"
  by (simp add: isspace_def)

lemma str_brace: "str ''}'' = [125]"
  by (simp add: str_def)

lemma rstrip_decomp: "t = rstrip t @ rev (takeWhile isspace (rev t))"
proof -
  have "rev (takeWhile isspace (rev t) @ dropWhile isspace (rev t)) = t"
    by simp
  then have "rev (dropWhile isspace (rev t)) @ rev (takeWhile isspace (rev t)) = t"
    by (simp only: rev_append)
  then show ?thesis
    by (simp add: rstrip_def)
qed

lemma rstrip_append_spaces:
  assumes "\<forall>c\<in>set ws. isspace c" and "\<not> isspace x"
  shows "rstrip (body @ [x] @ ws) = body @ [x]"
proof -
  have "dropWhile isspace (rev ws @ x # rev body) = x # rev body"
    using assms by (simp add: dropWhile_append3)
  then show ?thesis by (simp add: rstrip_def)
qed

lemma endswith_brace_rstrip_iff:
  "endswith_brace (rstrip d) \<longleftrightarrow>
     (\<exists>body ws. d = body @ str ''}'' @ ws \<and> (\<forall>c\<in>set ws. isspace c))"
proof
  assume "endswith_brace (rstrip d)"
  then obtain body where b: "rstrip d = body @ [125]"
    by (auto simp: endswith_brace_def str_brace suffix_def)
  have "d = body @ [125] @ rev (takeWhile isspace (rev d))"
    using rstrip_decomp [of d] b by simp
  moreover have "\<forall>c\<in>set (rev (takeWhile isspace (rev d))). isspace c"
    by (auto dest: set_takeWhileD)
  ultimately show "\<exists>body ws. d = body @ str ''}'' @ ws \<and> (\<forall>c\<in>set ws. isspace c)"
    unfolding str_brace by blast
next
  assume "\<exists>body ws. d = body @ str ''}'' @ ws \<and> (\<forall>c\<in>set ws. isspace c)"
  then obtain body ws where d: "d = body @ [125] @ ws" and ws: "\<forall>c\<in>set ws. isspace c"
    unfolding str_brace by blast
  have "rstrip d = body @ [125]"
    unfolding d using ws not_isspace_brace by (rule rstrip_append_spaces)
  then show "endswith_brace (rstrip d)"
    by (simp add: endswith_brace_def str_brace suffix_def)
qed

lemma read_loop_Completed_longer:
  "read_loop timeout evs buf = Some (Completed, buf') \<Longrightarrow> length buf < length buf'"
proof (induction evs arbitrary: buf)
  case Nil
  then show ?case by simp
next
  case (Cons ev evs)
  obtain t r where ev: "ev = (t, r)" by (cases ev)
  show ?case
  proof (cases r)
    case (Data chunk)
    show ?thesis
    proof (cases "t < timeout \<and> chunk \<noteq> [] \<and> \<not> is_complete (decode (buf @ chunk))")
      case True
      with Cons.prems ev Data
      have "read_loop timeout evs (buf @ chunk) = Some (Completed, buf')" by simp
      from Cons.IH [OF this] show ?thesis by simp
    next
      case False
      with Cons.prems ev Data show ?thesis by (auto split: if_splits)
    qed
  next
    case SocketTimeout
    with Cons.prems ev show ?thesis by (simp split: if_splits)
  next
    case OtherException
    with Cons.prems ev show ?thesis by (simp split: if_splits)
  qed
qed

lemma read_loop_data_completed_iff:
  assumes "t < timeout" and "chunk \<noteq> []"
  shows "read_loop timeout ((t, Data chunk) # evs) buf = Some (Completed, buf @ chunk)
         \<longleftrightarrow> is_complete (decode (buf @ chunk))"
proof (cases "is_complete (decode (buf @ chunk))")
  case True
  with assms show ?thesis by simp
next
  case False
  have "read_loop timeout evs (buf @ chunk) \<noteq> Some (Completed, buf @ chunk)"
    using read_loop_Completed_longer [of timeout evs "buf @ chunk" "buf @ chunk"] by auto
  with False assms show ?thesis by simp
qed

lemma is_complete_terminal:
  assumes "w = str ''success'' \<or> w = str ''complete'' \<or> w = str ''failed''"
  shows \<open>is_complete (pre @ str ''"status":"'' @ w @ str ''"}'')\<close>
proof -
  let ?d = \<open>pre @ str ''"status":"'' @ w @ str ''"}''\<close>
  have split: \<open>?d = pre @ (str ''"status":"'' @ w @ [34]) @ [125]\<close>
    by (simp add: str_def)
  have sub: \<open>sublist (str ''"status":"'' @ w @ [34]) ?d\<close>
    unfolding split by (rule sublist_appendI)
  have \<open>?d = (pre @ str ''"status":"'' @ w @ [34]) @ str ''}'' @ []\<close>
    by (simp add: str_def)
  then have \<open>\<exists>body ws. ?d = body @ str ''}'' @ ws \<and> (\<forall>c\<in>set ws. isspace c)\<close>
    by (metis empty_iff list.set(1))
  then have e: "endswith_brace (rstrip ?d)"
    by (simp only: endswith_brace_rstrip_iff)
  from assms sub have \<open>sublist (str ''"status":"success"'') ?d
      \<or> sublist (str ''"status":"complete"'') ?d
      \<or> sublist (str ''"status":"failed"'') ?d\<close>
    by (auto simp: str_def)
  with e show ?thesis
    unfolding is_complete_def by blast
qed

text \<open>
  Claim C1, as the code has it. When a non-empty chunk arrives before the deadline,
  \<open>send_command\<close> leaves its loop as complete on that chunk if and only if the decoded
  buffer contains \<^verbatim>\<open>"status":"success"\<close>, \<^verbatim>\<open>"status":"complete"\<close> or \<^verbatim>\<open>"status":"failed"\<close>
  (written exactly so, with no space after the colon) and, with its trailing whitespace
  removed, ends with a closing brace. So a buffer that ends in one of these three followed
  by the brace is complete, and a buffer that does not end in a brace once trimmed is not,
  whatever it contains.
\<close>

theorem read_loop_completion:
  assumes "t < timeout" and "chunk \<noteq> []"
  shows \<open>(read_loop timeout ((t, Data chunk) # evs) buf = Some (Completed, buf @ chunk)
          \<longleftrightarrow> (sublist (str ''"status":"success"'') (decode (buf @ chunk))
               \<or> sublist (str ''"status":"complete"'') (decode (buf @ chunk))
               \<or> sublist (str ''"status":"failed"'') (decode (buf @ chunk)))
              \<and> (\<exists>body ws. decode (buf @ chunk) = body @ str ''}'' @ ws \<and> (\<forall>c\<in>set ws. isspace c)))
       \<and> ((\<exists>pre w. (w = str ''success'' \<or> w = str ''complete'' \<or> w = str ''failed'')
                   \<and> decode (buf @ chunk) = pre @ str ''"status":"'' @ w @ str ''"}'')
            \<longrightarrow> read_loop timeout ((t, Data chunk) # evs) buf = Some (Completed, buf @ chunk))
       \<and> (\<not> endswith_brace (rstrip (decode (buf @ chunk)))
            \<longrightarrow> read_loop timeout ((t, Data chunk) # evs) buf \<noteq> Some (Completed, buf @ chunk))\<close>
proof -
  note iff = read_loop_data_completed_iff [OF assms, of evs buf]
  have a: \<open>read_loop timeout ((t, Data chunk) # evs) buf = Some (Completed, buf @ chunk)
          \<longleftrightarrow> (sublist (str ''"status":"success"'') (decode (buf @ chunk))
               \<or> sublist (str ''"status":"complete"'') (decode (buf @ chunk))
               \<or> sublist (str ''"status":"failed"'') (decode (buf @ chunk)))
              \<and> (\<exists>body ws. decode (buf @ chunk) = body @ str ''}'' @ ws \<and> (\<forall>c\<in>set ws. isspace c))\<close>
    unfolding iff is_complete_def endswith_brace_rstrip_iff ..
  have b: \<open>(\<exists>pre w. (w = str ''success'' \<or> w = str ''complete'' \<or> w = str ''failed'')
                   \<and> decode (buf @ chunk) = pre @ str ''"status":"'' @ w @ str ''"}'')
            \<longrightarrow> read_loop timeout ((t, Data chunk) # evs) buf = Some (Completed, buf @ chunk)\<close>
    unfolding iff using is_complete_terminal by metis
  have c: \<open>\<not> endswith_brace (rstrip (decode (buf @ chunk)))
            \<longrightarrow> read_loop timeout ((t, Data chunk) # evs) buf \<noteq> Some (Completed, buf @ chunk)\<close>
    unfolding iff by (simp add: is_complete_def)
  from a b c show ?thesis by blast
qed

theorem read_loop_completion_witness:
  \<open>(0::nat) < 60 \<and> bytes_of ''{"status":"success"}'' \<noteq> []
   \<and> read_loop 60 [(0, Data (bytes_of ''{"status":"success"}''))] []
       = Some (Completed, bytes_of ''{"status":"success"}'')\<close>
proof -
  have h1: "(0::nat) < 60" by simp
  have h2: \<open>bytes_of ''{"status":"success"}'' \<noteq> []\<close>
    by (simp add: bytes_of_def)
  have d: \<open>decode ([] @ bytes_of ''{"status":"success"}'')
           = str ''{'' @ str ''"status":"'' @ str ''success'' @ str ''"}''\<close>
    by (simp add: bytes_of_def str_def utf8_step_def)
  from read_loop_completion [OF h1 h2, of "[]" "[]"] d
  have \<open>read_loop 60 [(0, Data (bytes_of ''{"status":"success"}''))] []
        = Some (Completed, [] @ bytes_of ''{"status":"success"}'')\<close>
    by blast
  with h1 h2 show ?thesis by simp
qed

text \<open>
  The variant with a space after the colon is not recognised: the buffer below contains
  it and ends with a brace, and the loop reads on until the read times out.
\<close>

theorem completion_space_variant_counterexample:
  \<open>sublist (str ''"status": "success"'') (decode (bytes_of ''{"status": "success"}''))
   \<and> endswith_brace (rstrip (decode (bytes_of ''{"status": "success"}'')))
   \<and> read_loop 60 [(0, Data (bytes_of ''{"status": "success"}'')), (1, SocketTimeout)] []
       = Some (TimedOut, bytes_of ''{"status": "success"}'')\<close>
  by (simp add: bytes_of_def str_def utf8_step_def is_complete_def sublist_code
        endswith_brace_def suffix_to_prefix rstrip_def isspace_def)

section \<open>The identifier scan and the success scan\<close>

lemma match_id_here_not_quote: "c \<noteq> 34 \<Longrightarrow> match_id_here (c # t) = None"
  by (simp add: match_id_here_def str_def)

lemma search_id_skip: "34 \<notin> set v \<Longrightarrow> search_id (v @ rest) = search_id rest"
proof (induction v)
  case Nil
  then show ?case by simp
next
  case (Cons c v)
  then have "c \<noteq> 34" by auto
  then have "match_id_here (c # v @ rest) = None"
    by (rule match_id_here_not_quote)
  with Cons show ?case by simp
qed

lemma takeWhile_no_quote:
  "34 \<notin> set v \<Longrightarrow> takeWhile (\<lambda>c. c \<noteq> (34::nat)) (v @ 34 # rest) = v"
  by (induction v) auto

lemma dropWhile_no_quote:
  "34 \<notin> set v \<Longrightarrow> dropWhile (\<lambda>c. c \<noteq> (34::nat)) (v @ 34 # rest) = 34 # rest"
  by (induction v) auto

lemma not_isspace_quote: "\<not> isspace 34"
  by (simp add: isspace_def)

lemma match_id_here_id_field:
  assumes "v \<noteq> []" and "34 \<notin> set v"
  shows \<open>match_id_here (str ''"id":"'' @ v @ str ''"}'') = Some v\<close>
proof -
  have e: \<open>str ''"id":"'' @ v @ str ''"}'' = [34, 105, 100, 34, 58] @ 34 # (v @ 34 # [125])\<close>
    by (simp add: str_def)
  have p: \<open>prefix (str ''"id":'') (str ''"id":"'' @ v @ str ''"}'')\<close>
    by (simp add: str_def)
  have d: \<open>dropWhile isspace (drop 5 (str ''"id":"'' @ v @ str ''"}'')) = 34 # (v @ 34 # [125])\<close>
    unfolding e using not_isspace_quote by simp
  show ?thesis
    unfolding match_id_here_def using p d assms
    by (simp add: takeWhile_no_quote dropWhile_no_quote)
qed

lemma match_id_here_value_start:
  assumes "34 \<notin> set v"
  shows "match_id_here (34 # v @ [34, 125]) = None"
proof -
  have "\<not> prefix [34, 105, 100, 34, 58] (34 # v @ [34, 125::nat])"
  proof (cases v)
    case Nil
    then show ?thesis by simp
  next
    case (Cons a v1)
    show ?thesis
    proof (cases v1)
      case Nil
      with Cons show ?thesis by simp
    next
      case (Cons b v2)
      show ?thesis
      proof (cases v2)
        case Nil
        with \<open>v = a # v1\<close> \<open>v1 = b # v2\<close> show ?thesis by simp
      next
        case (Cons c v3)
        with \<open>v = a # v1\<close> \<open>v1 = b # v2\<close> assms have "c \<noteq> 34" by auto
        with Cons \<open>v = a # v1\<close> \<open>v1 = b # v2\<close> show ?thesis by simp
      qed
    qed
  qed
  then show ?thesis
    by (simp add: match_id_here_def str_def)
qed

lemma search_id_id_field:
  assumes "v \<noteq> []" and "34 \<notin> set v"
  shows \<open>search_id (str ''{"id":"'' @ v @ str ''"}'') = Some v\<close>
proof -
  have e: \<open>str ''{"id":"'' @ v @ str ''"}'' = 123 # (str ''"id":"'' @ v @ str ''"}'')\<close>
    by (simp add: str_def)
  have e2: \<open>str ''"id":"'' @ v @ str ''"}'' = 34 # (str ''id":"'' @ v @ str ''"}'')\<close>
    by (simp add: str_def)
  have \<open>match_id_here (123 # (str ''"id":"'' @ v @ str ''"}'')) = None\<close>
    by (rule match_id_here_not_quote) simp
  then have \<open>search_id (str ''{"id":"'' @ v @ str ''"}'') = search_id (str ''"id":"'' @ v @ str ''"}'')\<close>
    unfolding e by simp
  also have \<open>\<dots> = Some v\<close>
    using match_id_here_id_field [OF assms] unfolding e2 by simp
  finally show ?thesis .
qed

lemma search_id_scriptId_field:
  assumes "34 \<notin> set v"
  shows \<open>search_id (str ''{"scriptId":"'' @ v @ str ''"}'') = None\<close>
proof -
  have tail: "search_id (34 # v @ [34, 125]) = None"
  proof -
    have "search_id (v @ [34, 125]) = search_id [34, 125]"
      using assms by (rule search_id_skip)
    also have "\<dots> = None"
      by (simp add: match_id_here_def str_def)
    finally show ?thesis
      using match_id_here_value_start [OF assms] by simp
  qed
  have \<open>str ''{"scriptId":"'' @ v @ str ''"}''
        = [123, 34, 115, 99, 114, 105, 112, 116, 73, 100, 34, 58] @ (34 # v @ [34, 125])\<close>
    by (simp add: str_def)
  moreover have "search_id ([123, 34, 115, 99, 114, 105, 112, 116, 73, 100, 34, 58] @ (34 # v @ [34, 125]))
        = search_id (34 # v @ [34, 125])"
    by (simp add: match_id_here_def str_def)
  ultimately show ?thesis using tail by simp
qed

text \<open>
  Claim C3, as the code has it. For every non-empty identifier \<open>v\<close> without a double
  quote, the scan \<^verbatim>\<open>"id":\s*"([^"]+)"\<close> extracts \<open>v\<close> from the payload \<^verbatim>\<open>{"id":"v"}\<close> and finds
  no match at all in the payload \<^verbatim>\<open>{"scriptId":"v"}\<close>: the pattern asks for a quote directly
  before \<^verbatim>\<open>id\<close>.
\<close>

theorem search_id_field_names:
  assumes "v \<noteq> []" and "34 \<notin> set v"
  shows \<open>search_id (str ''{"id":"'' @ v @ str ''"}'') = Some v
         \<and> search_id (str ''{"scriptId":"'' @ v @ str ''"}'') = None\<close>
  using search_id_id_field [OF assms] search_id_scriptId_field [OF assms(2)] by simp

theorem search_id_field_names_witness:
  \<open>str ''abc'' \<noteq> [] \<and> 34 \<notin> set (str ''abc'')
   \<and> search_id (str ''{"id":"abc"}'') = Some (str ''abc'')
   \<and> search_id (str ''{"scriptId":"abc"}'') = None\<close>
proof -
  have h1: "str ''abc'' \<noteq> []" by (simp add: str_def)
  have h2: "34 \<notin> set (str ''abc'')" by (simp add: str_def)
  have e1: \<open>str ''{"id":"'' @ str ''abc'' @ str ''"}'' = str ''{"id":"abc"}''\<close>
    by (simp add: str_def)
  have e2: \<open>str ''{"scriptId":"'' @ str ''abc'' @ str ''"}'' = str ''{"scriptId":"abc"}''\<close>
    by (simp add: str_def)
  from search_id_field_names [OF h1 h2] h1 h2 show ?thesis
    unfolding e1 e2 by simp
qed

text \<open>
  The two field names do not give the same result: \<^verbatim>\<open>abc\<close> is extracted from the \<^verbatim>\<open>id\<close>
  payload and not from the \<^verbatim>\<open>scriptId\<close> payload.
\<close>

theorem search_id_scriptId_counterexample:
  \<open>search_id (str ''{"id":"abc"}'') = Some (str ''abc'')
   \<and> search_id (str ''{"scriptId":"abc"}'') \<noteq> Some (str ''abc'')\<close>
  by (simp add: match_id_here_def str_def isspace_def)

lemma sublist_mid: "sublist xs (pre @ xs @ post)"
  by (rule sublist_appendI)

text \<open>
  Claim C7, as the code has it. The success scan of test\_full\_flow.py reports success for
  every payload that contains the JSON boolean form, with one space or with no space after
  the colon, and for no other payload.
\<close>

theorem success_scan_forms:
  \<open>success_scan (pre @ str ''"success": true'' @ post)
   \<and> success_scan (pre @ str ''"success":true'' @ post)
   \<and> (success_scan t \<longleftrightarrow>
        (\<exists>p s. t = p @ str ''"success": true'' @ s \<or> t = p @ str ''"success":true'' @ s))\<close>
  unfolding success_scan_def sublist_def by blast

text \<open>
  The quoted string form is not accepted: a payload whose success field is the string
  \<^verbatim>\<open>"true"\<close> is not reported as a success.
\<close>

theorem success_scan_quoted_counterexample:
  \<open>sublist (str ''"success":"true"'') (str ''{"success":"true"}'')
   \<and> \<not> success_scan (str ''{"success":"true"}'')\<close>
  by (simp add: success_scan_def str_def sublist_code)

section \<open>Timeouts, the deadline and the socket\<close>

lemma read_loop_data_prefix:
  assumes "\<forall>(t', c) \<in> set tcs. t' < timeout \<and> c \<noteq> []"
    and "\<forall>n. 0 < n \<and> n \<le> length tcs \<longrightarrow>
           \<not> is_complete (decode (buf @ concat (map snd (take n tcs))))"
  shows "read_loop timeout (map (\<lambda>(t', c). (t', Data c)) tcs @ evs) buf
         = read_loop timeout evs (buf @ concat (map snd tcs))"
  using assms
proof (induction tcs arbitrary: buf)
  case Nil
  then show ?case by simp
next
  case (Cons tc tcs)
  obtain t' c where tc: "tc = (t', c)" by (cases tc)
  from Cons.prems(1) tc have ok: "t' < timeout" "c \<noteq> []" by auto
  from Cons.prems(2) [rule_format, of 1] tc have nc: "\<not> is_complete (decode (buf @ c))"
    by simp
  have rest1: "\<forall>(t', c) \<in> set tcs. t' < timeout \<and> c \<noteq> []"
    using Cons.prems(1) by simp
  have rest2: "\<forall>n. 0 < n \<and> n \<le> length tcs \<longrightarrow>
           \<not> is_complete (decode ((buf @ c) @ concat (map snd (take n tcs))))"
  proof (intro allI impI)
    fix n assume n: "0 < n \<and> n \<le> length tcs"
    from Cons.prems(2) [rule_format, of "Suc n"] n tc
    show "\<not> is_complete (decode ((buf @ c) @ concat (map snd (take n tcs))))"
      by simp
  qed
  from Cons.IH [OF rest1 rest2] ok nc tc show ?case by simp
qed

lemma read_loop_stops:
  assumes "\<not> t < timeout \<or> r = SocketTimeout"
  shows "read_loop timeout ((t, r) # rest) buf
         = Some (if t < timeout then TimedOut else DeadlineElapsed, buf)"
  using assms by auto

text \<open>
  Claim C6. In a session of \<open>send_command\<close> (gen\_and\_run.py) that connects and sends,
  receives some non-empty chunks none of which completes the buffer, and then either finds
  the deadline elapsed at the loop condition or has a read time out, the loop ends as timed
  out with all the bytes received so far, and the function closes the socket and returns
  these bytes decoded with replacement: nothing received is dropped.
\<close>

theorem send_command_timeout_keeps_buffer:
  assumes "connect_ok e" and "send_ok e"
    and "events e = map (\<lambda>(t', c). (t', Data c)) tcs @ (t, r) # rest"
    and "\<forall>(t', c) \<in> set tcs. t' < timeout \<and> c \<noteq> []"
    and "\<forall>n. 0 < n \<and> n \<le> length tcs \<longrightarrow>
           \<not> is_complete (decode (concat (map snd (take n tcs))))"
    and "\<not> t < timeout \<or> r = SocketTimeout"
  shows "read_loop timeout (events e) []
           = Some (if t < timeout then TimedOut else DeadlineElapsed, concat (map snd tcs))
         \<and> send_command timeout e = Some (1, Returned (decode (concat (map snd tcs))))"
proof -
  have "read_loop timeout (events e) []
        = read_loop timeout ((t, r) # rest) ([] @ concat (map snd tcs))"
    unfolding assms(3) by (rule read_loop_data_prefix) (use assms(4,5) in simp_all)
  also have "\<dots> = Some (if t < timeout then TimedOut else DeadlineElapsed, concat (map snd tcs))"
    using read_loop_stops [OF assms(6)] by simp
  finally have loop: "read_loop timeout (events e) []
        = Some (if t < timeout then TimedOut else DeadlineElapsed, concat (map snd tcs))" .
  with assms(1,2) show ?thesis
    by (simp add: send_command_def)
qed

lemma decode_partial: \<open>decode (bytes_of ''{"scriptId":"s1",'') = str ''{"scriptId":"s1",''\<close>
  by (simp add: bytes_of_def str_def utf8_step_def)

theorem send_command_timeout_keeps_buffer_witness:
  \<open>read_loop 60 [(1, Data (bytes_of ''{"scriptId":"s1",'')), (59, SocketTimeout)] []
     = Some (TimedOut, bytes_of ''{"scriptId":"s1",'')
   \<and> send_command 60 \<lparr>connect_ok = True, send_ok = True,
        events = [(1, Data (bytes_of ''{"scriptId":"s1",'')), (59, SocketTimeout)]\<rparr>
     = Some (1, Returned (str ''{"scriptId":"s1",''))\<close>
proof -
  let ?c = \<open>bytes_of ''{"scriptId":"s1",''\<close>
  let ?e = "\<lparr>connect_ok = True, send_ok = True, events = [(1, Data ?c), (59, SocketTimeout)]\<rparr>"
  have ne: "?c \<noteq> []" by (simp add: bytes_of_def)
  have nc: "\<not> is_complete (decode ?c)"
    unfolding decode_partial
    by (simp add: str_def is_complete_def sublist_code)
  have h1: "connect_ok ?e" and h2: "send_ok ?e" by simp_all
  have h3: "events ?e = map (\<lambda>(t', c). (t', Data c)) [(1, ?c)] @ (59, SocketTimeout) # []"
    by simp
  have h4: "\<forall>(t', c) \<in> set [(1::nat, ?c)]. t' < 60 \<and> c \<noteq> []"
    using ne by simp
  have h5: "\<forall>n. 0 < n \<and> n \<le> length [(1::nat, ?c)] \<longrightarrow>
           \<not> is_complete (decode (concat (map snd (take n [(1::nat, ?c)]))))"
    using nc by (auto simp: take_Cons split: nat.splits)
  have h6: "\<not> (59::nat) < 60 \<or> SocketTimeout = SocketTimeout" by simp
  from send_command_timeout_keeps_buffer [OF h1 h2 h3 h4 h5 h6] show ?thesis
    by (simp add: decode_partial)
qed

section \<open>run\_script.py: read timeouts\<close>

lemma run_script_loop_skip_timeouts:
  "run_script_loop (filter (\<lambda>(t, r). \<not> (t < 180 \<and> r = SocketTimeout)) evs) st
   = run_script_loop evs st"
proof (induction evs arbitrary: st)
  case Nil
  then show ?case by simp
next
  case (Cons ev evs)
  obtain t r where ev: "ev = (t, r)" by (cases ev)
  show ?case
  proof (cases "t < 180")
    case False
    with ev show ?thesis by simp
  next
    case True
    with ev Cons.IH show ?thesis
      by (cases r) (simp_all add: Let_def split: prod.splits)
  qed
qed

lemma run_script_loop_exit_cause:
  assumes "run_script_loop evs st = Some (reason, st')"
  shows "\<exists>pre t r post. evs = pre @ (t, r) # post \<and>
           ((reason = DeadlineElapsed \<and> \<not> t < 180)
            \<or> (t < 180 \<and> reason = ClosedEarly \<and> r = Data [])
            \<or> (t < 180 \<and> reason = Failed \<and> r = OtherException)
            \<or> (t < 180 \<and> reason = Completed
                \<and> (\<exists>chunk. r = Data chunk \<and> chunk \<noteq> []
                     \<and> run_script_complete (decode (all_data st')))))"
  using assms
proof (induction evs arbitrary: st)
  case Nil
  then show ?case by simp
next
  case (Cons ev evs)
  obtain t r where ev: "ev = (t, r)" by (cases ev)
  let ?P = "\<lambda>evs. \<exists>pre t r post. evs = pre @ (t, r) # post \<and>
           ((reason = DeadlineElapsed \<and> \<not> t < 180)
            \<or> (t < 180 \<and> reason = ClosedEarly \<and> r = Data [])
            \<or> (t < 180 \<and> reason = Failed \<and> r = OtherException)
            \<or> (t < 180 \<and> reason = Completed
                \<and> (\<exists>chunk. r = Data chunk \<and> chunk \<noteq> []
                     \<and> run_script_complete (decode (all_data st')))))"
  have later: "?P evs \<Longrightarrow> ?P (ev # evs)"
  proof -
    assume "?P evs"
    then obtain pre t1 r1 post where "evs = pre @ (t1, r1) # post \<and>
           ((reason = DeadlineElapsed \<and> \<not> t1 < 180)
            \<or> (t1 < 180 \<and> reason = ClosedEarly \<and> r1 = Data [])
            \<or> (t1 < 180 \<and> reason = Failed \<and> r1 = OtherException)
            \<or> (t1 < 180 \<and> reason = Completed
                \<and> (\<exists>chunk. r1 = Data chunk \<and> chunk \<noteq> []
                     \<and> run_script_complete (decode (all_data st')))))"
      by blast
    then have "ev # evs = (ev # pre) @ (t1, r1) # post \<and>
           ((reason = DeadlineElapsed \<and> \<not> t1 < 180)
            \<or> (t1 < 180 \<and> reason = ClosedEarly \<and> r1 = Data [])
            \<or> (t1 < 180 \<and> reason = Failed \<and> r1 = OtherException)
            \<or> (t1 < 180 \<and> reason = Completed
                \<and> (\<exists>chunk. r1 = Data chunk \<and> chunk \<noteq> []
                     \<and> run_script_complete (decode (all_data st')))))"
      by simp
    then show "?P (ev # evs)" by blast
  qed
  have here: "\<And>post. ((reason = DeadlineElapsed \<and> \<not> t < 180)
            \<or> (t < 180 \<and> reason = ClosedEarly \<and> r = Data [])
            \<or> (t < 180 \<and> reason = Failed \<and> r = OtherException)
            \<or> (t < 180 \<and> reason = Completed
                \<and> (\<exists>chunk. r = Data chunk \<and> chunk \<noteq> []
                     \<and> run_script_complete (decode (all_data st'))))) \<Longrightarrow> ?P (ev # evs)"
  proof -
    assume h: "((reason = DeadlineElapsed \<and> \<not> t < 180)
            \<or> (t < 180 \<and> reason = ClosedEarly \<and> r = Data [])
            \<or> (t < 180 \<and> reason = Failed \<and> r = OtherException)
            \<or> (t < 180 \<and> reason = Completed
                \<and> (\<exists>chunk. r = Data chunk \<and> chunk \<noteq> []
                     \<and> run_script_complete (decode (all_data st')))))"
    have "ev # evs = [] @ (t, r) # evs" using ev by simp
    with h show "?P (ev # evs)" by blast
  qed
  show ?case
  proof (cases "t < 180")
    case False
    with Cons.prems ev have "reason = DeadlineElapsed" by simp
    with False show ?thesis by (intro here) simp
  next
    case True
    show ?thesis
    proof (cases r)
      case (Data chunk)
      show ?thesis
      proof (cases "chunk = []")
        case True
        with Cons.prems ev Data \<open>t < 180\<close> have "reason = ClosedEarly" by simp
        with True Data \<open>t < 180\<close> show ?thesis by (intro here) simp
      next
        case ne: False
        obtain seen outp where fl:
          "for_lines (\<lambda>line. Some (Line line)) (split_nl (strip (decode (all_data st @ chunk))))
             (printed st, out st) = (seen, outp)"
          by (cases "for_lines (\<lambda>line. Some (Line line)) (split_nl (strip (decode (all_data st @ chunk))))
             (printed st, out st)")
        let ?st1 = "\<lparr>all_data = all_data st @ chunk, printed = seen, out = outp\<rparr>"
        show ?thesis
        proof (cases "run_script_complete (decode (all_data st @ chunk))")
          case True
          with Cons.prems ev Data \<open>t < 180\<close> ne fl
          have "reason = Completed" "st' = ?st1" by (simp_all add: Let_def)
          with True Data \<open>t < 180\<close> ne show ?thesis by (intro here) simp
        next
          case False
          with Cons.prems ev Data \<open>t < 180\<close> ne fl
          have "run_script_loop evs ?st1 = Some (reason, st')" by (simp add: Let_def)
          from Cons.IH [OF this] show ?thesis by (rule later)
        qed
      qed
    next
      case SocketTimeout
      with Cons.prems ev True have "run_script_loop evs st = Some (reason, st')" by simp
      from Cons.IH [OF this] show ?thesis by (rule later)
    next
      case OtherException
      with Cons.prems ev True have "reason = Failed" by simp
      with OtherException True show ?thesis by (intro here) simp
    qed
  qed
qed

text \<open>
  Claim C9. In the loop of run\_script.py a read timeout before the deadline changes
  nothing and the loop reads on, so a session behaves as the same session without these
  timeouts; and when the loop ends, the event it ended on is the deadline found elapsed, an
  empty \<^verbatim>\<open>recv\<close>, an exception other than a timeout, or a chunk that completes the buffer.
\<close>

theorem run_script_read_timeout_continues:
  "(t < 180 \<longrightarrow> run_script_loop ((t, SocketTimeout) # evs) st = run_script_loop evs st)
   \<and> run_script (filter (\<lambda>(t, r). \<not> (t < 180 \<and> r = SocketTimeout)) evs) = run_script evs
   \<and> (run_script evs = Some (reason, st') \<longrightarrow>
        (\<exists>pre t r post. evs = pre @ (t, r) # post \<and>
           ((reason = DeadlineElapsed \<and> \<not> t < 180)
            \<or> (t < 180 \<and> reason = ClosedEarly \<and> r = Data [])
            \<or> (t < 180 \<and> reason = Failed \<and> r = OtherException)
            \<or> (t < 180 \<and> reason = Completed
                \<and> (\<exists>chunk. r = Data chunk \<and> chunk \<noteq> []
                     \<and> run_script_complete (decode (all_data st')))))))"
proof -
  have a: "t < 180 \<longrightarrow> run_script_loop ((t, SocketTimeout) # evs) st = run_script_loop evs st"
    by simp
  have b: "run_script (filter (\<lambda>(t, r). \<not> (t < 180 \<and> r = SocketTimeout)) evs) = run_script evs"
    unfolding run_script_def by (rule run_script_loop_skip_timeouts)
  have c: "run_script evs = Some (reason, st') \<longrightarrow>
        (\<exists>pre t r post. evs = pre @ (t, r) # post \<and>
           ((reason = DeadlineElapsed \<and> \<not> t < 180)
            \<or> (t < 180 \<and> reason = ClosedEarly \<and> r = Data [])
            \<or> (t < 180 \<and> reason = Failed \<and> r = OtherException)
            \<or> (t < 180 \<and> reason = Completed
                \<and> (\<exists>chunk. r = Data chunk \<and> chunk \<noteq> []
                     \<and> run_script_complete (decode (all_data st'))))))"
    unfolding run_script_def using run_script_loop_exit_cause by blast
  from a b c show ?thesis by blast
qed

theorem run_script_read_timeout_continues_witness:
  \<open>run_script [(10, SocketTimeout), (20, SocketTimeout), (30, Data [])]
     = Some (ClosedEarly, \<lparr>all_data = [], printed = {}, out = []\<rparr>)
   \<and> run_script [(10, SocketTimeout), (20, SocketTimeout), (30, Data [])]
     = run_script [(30, Data [])]\<close>
proof -
  let ?evs = "[(10::nat, SocketTimeout), (20, SocketTimeout), (30, Data [])]"
  have f: "filter (\<lambda>(t, r). \<not> (t < 180 \<and> r = SocketTimeout)) ?evs = [(30, Data [])]"
    by simp
  have r: "run_script [(30, Data [])] = Some (ClosedEarly, \<lparr>all_data = [], printed = {}, out = []\<rparr>)"
    by (simp add: run_script_def)
  from run_script_read_timeout_continues [of _ ?evs]
  have "run_script (filter (\<lambda>(t, r). \<not> (t < 180 \<and> r = SocketTimeout)) ?evs) = run_script ?evs"
    by blast
  with f r show ?thesis by simp
qed

section \<open>Sentinel lines in the streaming loops\<close>

lemma split_nl_nonempty: "split_nl t \<noteq> []"
  by (induction t) auto

lemma split_nl_Cons_eval:
  "split_nl (c # cs) =
     (if c = 10 then [] # split_nl cs
      else (case split_nl cs of [] \<Rightarrow> [[c]] | l # ls \<Rightarrow> (c # l) # ls))"
  using split_nl_nonempty [of cs] by (cases "split_nl cs") auto

lemmas text_eval = bytes_of_def str_def utf8_step_def strip_def lstrip_def rstrip_def
  isspace_def split_nl_Cons_eval sublist_code suffix_to_prefix


lemma scan_lines_hit:
  assumes "\<forall>l\<in>set before. \<not> sentinel l" and "sentinel line" and "line \<noteq> []"
  shows "scan_lines width sentinel (before @ line # after)
         = (map (\<lambda>l. Got (take width l)) (filter (\<lambda>l. l \<noteq> []) before)
              @ [Got (take width line), DoneMsg], True)"
  using assms(1)
proof (induction before)
  case Nil
  with assms(2,3) show ?case by simp
next
  case (Cons l before)
  then show ?case by simp
qed

lemma stream_loop_hit:
  assumes "t < deadline"
    and "split_nl (strip (decode data)) = before @ line # after"
    and "\<forall>l\<in>set before. \<not> sentinel l" and "sentinel line" and "line \<noteq> []"
  shows "stream_loop deadline width sentinel ((t, Data data) # evs) outp
         = Some (SentinelSeen,
              outp @ map (\<lambda>l. Got (take width l)) (filter (\<lambda>l. l \<noteq> []) before)
                @ [Got (take width line), DoneMsg])"
proof -
  have ne: "data \<noteq> []"
  proof
    assume "data = []"
    then have "split_nl (strip (decode data)) = [[]]"
      by (simp add: strip_def rstrip_def lstrip_def)
    with assms(2) have "before @ line # after = [[]]" by simp
    then have "line = []" by (cases before) auto
    with assms(5) show False by simp
  qed
  from scan_lines_hit [OF assms(3,4,5)] assms(1,2) ne show ?thesis
    by simp
qed

lemma script_sentinel_nonempty: "script_sentinel l \<Longrightarrow> l \<noteq> []"
  by (cases l) (simp_all add: script_sentinel_def str_def)

lemma goal_sentinel_nonempty: "goal_sentinel l \<Longrightarrow> l \<noteq> []"
  by (cases l) (simp_all add: goal_sentinel_def str_def)

lemma execute_sentinel_nonempty: "execute_sentinel l \<Longrightarrow> l \<noteq> []"
  by (cases l) (simp_all add: execute_sentinel_def str_def)

text \<open>
  Claim C8, as the code has it. Each streaming function ends its session at the first
  line of a received chunk that contains one of its own two markers, right after printing
  that line and whatever follows in the trace, without any test of the JSON completion
  heuristic: \<^verbatim>\<open>SCRIPT_COMPLETE\<close> or \<^verbatim>\<open>SCRIPT_ERROR\<close> in \<open>test_script_execute\<close>,
  \<^verbatim>\<open>AI_GOAL_COMPLETE\<close> or \<^verbatim>\<open>AI_GOAL_ERROR\<close> in \<open>test_run_ai_goal\<close>, and \<^verbatim>\<open>status":"complete\<close> or
  \<^verbatim>\<open>SCRIPT_ERROR\<close> in \<open>test_execute\<close>.
\<close>

theorem sentinel_line_ends_stream:
  assumes "split_nl (strip (decode data)) = before @ line # after"
  shows \<open>(t < 180 \<and> (\<forall>l\<in>set before. \<not> script_sentinel l)
          \<and> (sublist (str ''SCRIPT_COMPLETE'') line \<or> sublist (str ''SCRIPT_ERROR'') line)
         \<longrightarrow> stream_loop 180 300 script_sentinel ((t, Data data) # evs) outp
             = Some (SentinelSeen,
                  outp @ map (\<lambda>l. Got (take 300 l)) (filter (\<lambda>l. l \<noteq> []) before)
                    @ [Got (take 300 line), DoneMsg]))
       \<and> (t < 300 \<and> (\<forall>l\<in>set before. \<not> goal_sentinel l)
          \<and> (sublist (str ''AI_GOAL_COMPLETE'') line \<or> sublist (str ''AI_GOAL_ERROR'') line)
         \<longrightarrow> stream_loop 300 400 goal_sentinel ((t, Data data) # evs) outp
             = Some (SentinelSeen,
                  outp @ map (\<lambda>l. Got (take 400 l)) (filter (\<lambda>l. l \<noteq> []) before)
                    @ [Got (take 400 line), DoneMsg]))
       \<and> (t < 180 \<and> (\<forall>l\<in>set before. \<not> execute_sentinel l)
          \<and> (sublist (str ''status":"complete'') line \<or> sublist (str ''SCRIPT_ERROR'') line)
         \<longrightarrow> stream_loop 180 300 execute_sentinel ((t, Data data) # evs) outp
             = Some (SentinelSeen,
                  outp @ map (\<lambda>l. Got (take 300 l)) (filter (\<lambda>l. l \<noteq> []) before)
                    @ [Got (take 300 line), DoneMsg]))\<close>
proof -
  have a: \<open>t < 180 \<and> (\<forall>l\<in>set before. \<not> script_sentinel l)
          \<and> (sublist (str ''SCRIPT_COMPLETE'') line \<or> sublist (str ''SCRIPT_ERROR'') line)
         \<longrightarrow> stream_loop 180 300 script_sentinel ((t, Data data) # evs) outp
             = Some (SentinelSeen,
                  outp @ map (\<lambda>l. Got (take 300 l)) (filter (\<lambda>l. l \<noteq> []) before)
                    @ [Got (take 300 line), DoneMsg])\<close>
  proof
    assume h: \<open>t < 180 \<and> (\<forall>l\<in>set before. \<not> script_sentinel l)
          \<and> (sublist (str ''SCRIPT_COMPLETE'') line \<or> sublist (str ''SCRIPT_ERROR'') line)\<close>
    then have s: "script_sentinel line" by (simp add: script_sentinel_def)
    from h have t: "t < 180" and b: "\<forall>l\<in>set before. \<not> script_sentinel l" by simp_all
    from stream_loop_hit [OF t assms b s script_sentinel_nonempty [OF s]]
    show "stream_loop 180 300 script_sentinel ((t, Data data) # evs) outp
             = Some (SentinelSeen,
                  outp @ map (\<lambda>l. Got (take 300 l)) (filter (\<lambda>l. l \<noteq> []) before)
                    @ [Got (take 300 line), DoneMsg])" .
  qed
  have b: \<open>t < 300 \<and> (\<forall>l\<in>set before. \<not> goal_sentinel l)
          \<and> (sublist (str ''AI_GOAL_COMPLETE'') line \<or> sublist (str ''AI_GOAL_ERROR'') line)
         \<longrightarrow> stream_loop 300 400 goal_sentinel ((t, Data data) # evs) outp
             = Some (SentinelSeen,
                  outp @ map (\<lambda>l. Got (take 400 l)) (filter (\<lambda>l. l \<noteq> []) before)
                    @ [Got (take 400 line), DoneMsg])\<close>
  proof
    assume h: \<open>t < 300 \<and> (\<forall>l\<in>set before. \<not> goal_sentinel l)
          \<and> (sublist (str ''AI_GOAL_COMPLETE'') line \<or> sublist (str ''AI_GOAL_ERROR'') line)\<close>
    then have s: "goal_sentinel line" by (simp add: goal_sentinel_def)
    from h have t: "t < 300" and b: "\<forall>l\<in>set before. \<not> goal_sentinel l" by simp_all
    from stream_loop_hit [OF t assms b s goal_sentinel_nonempty [OF s]]
    show "stream_loop 300 400 goal_sentinel ((t, Data data) # evs) outp
             = Some (SentinelSeen,
                  outp @ map (\<lambda>l. Got (take 400 l)) (filter (\<lambda>l. l \<noteq> []) before)
                    @ [Got (take 400 line), DoneMsg])" .
  qed
  have c: \<open>t < 180 \<and> (\<forall>l\<in>set before. \<not> execute_sentinel l)
          \<and> (sublist (str ''status":"complete'') line \<or> sublist (str ''SCRIPT_ERROR'') line)
         \<longrightarrow> stream_loop 180 300 execute_sentinel ((t, Data data) # evs) outp
             = Some (SentinelSeen,
                  outp @ map (\<lambda>l. Got (take 300 l)) (filter (\<lambda>l. l \<noteq> []) before)
                    @ [Got (take 300 line), DoneMsg])\<close>
  proof
    assume h: \<open>t < 180 \<and> (\<forall>l\<in>set before. \<not> execute_sentinel l)
          \<and> (sublist (str ''status":"complete'') line \<or> sublist (str ''SCRIPT_ERROR'') line)\<close>
    then have s: "execute_sentinel line" by (simp add: execute_sentinel_def)
    from h have t: "t < 180" and b: "\<forall>l\<in>set before. \<not> execute_sentinel l" by simp_all
    from stream_loop_hit [OF t assms b s execute_sentinel_nonempty [OF s]]
    show "stream_loop 180 300 execute_sentinel ((t, Data data) # evs) outp
             = Some (SentinelSeen,
                  outp @ map (\<lambda>l. Got (take 300 l)) (filter (\<lambda>l. l \<noteq> []) before)
                    @ [Got (take 300 line), DoneMsg])" .
  qed
  from a b c show ?thesis by blast
qed

lemma split_step1: \<open>split_nl (strip (decode (bytes_of ''step 1'' @ [10] @ bytes_of ''SCRIPT_COMPLETE: ok'' @ [10])))
   = [str ''step 1''] @ str ''SCRIPT_COMPLETE: ok'' # []\<close>
  by (simp add: text_eval del: split_nl.simps(2))

theorem sentinel_line_ends_stream_witness:
  \<open>stream_loop 180 300 script_sentinel
     [(5, Data (bytes_of ''step 1'' @ [10] @ bytes_of ''SCRIPT_COMPLETE: ok'' @ [10])),
      (6, Data (bytes_of ''never read''))] []
   = Some (SentinelSeen, [Got (str ''step 1''), Got (str ''SCRIPT_COMPLETE: ok''), DoneMsg])\<close>
proof -
  have h: \<open>(5::nat) < 180 \<and> (\<forall>l\<in>set [str ''step 1'']. \<not> script_sentinel l)
          \<and> (sublist (str ''SCRIPT_COMPLETE'') (str ''SCRIPT_COMPLETE: ok'')
              \<or> sublist (str ''SCRIPT_ERROR'') (str ''SCRIPT_COMPLETE: ok''))\<close>
    by (simp add: script_sentinel_def str_def sublist_code)
  from sentinel_line_ends_stream [OF split_step1, of 5 "[(6, Data (bytes_of ''never read''))]" "[]"] h
  have \<open>stream_loop 180 300 script_sentinel
     [(5, Data (bytes_of ''step 1'' @ [10] @ bytes_of ''SCRIPT_COMPLETE: ok'' @ [10])),
      (6, Data (bytes_of ''never read''))] []
    = Some (SentinelSeen,
         [] @ map (\<lambda>l. Got (take 300 l)) (filter (\<lambda>l. l \<noteq> []) [str ''step 1''])
           @ [Got (take 300 (str ''SCRIPT_COMPLETE: ok'')), DoneMsg])\<close>
    by blast
  then show ?thesis by (simp add: str_def)
qed

text \<open>
  A marker of another function does not end the session: \<open>test_execute\<close> reads on after a
  line \<^verbatim>\<open>SCRIPT_COMPLETE\<close>, and \<open>test_script_execute\<close> after a line \<^verbatim>\<open>AI_GOAL_COMPLETE\<close>, until
  the deadline.
\<close>

theorem sentinel_other_mode_counterexample:
  \<open>sublist (str ''SCRIPT_COMPLETE'') (str ''SCRIPT_COMPLETE'')
   \<and> test_execute (str ''s1'')
       \<lparr>connect_ok = True, send_ok = True,
        events = [(1, Data (bytes_of ''SCRIPT_COMPLETE'')), (200, SocketTimeout)]\<rparr>
     = Some (1, Returned (DeadlineElapsed, [Got (str ''SCRIPT_COMPLETE'')]))
   \<and> test_script_execute (str ''s1'')
       \<lparr>connect_ok = True, send_ok = True,
        events = [(1, Data (bytes_of ''AI_GOAL_COMPLETE'')), (200, SocketTimeout)]\<rparr>
     = Some (1, Returned (DeadlineElapsed, [Got (str ''AI_GOAL_COMPLETE'')]))\<close>
  by (simp add: test_execute_def test_script_execute_def stream_session_def text_eval
        execute_sentinel_def script_sentinel_def closes_in_loop_def closes_after_loop_def
        del: split_nl.simps(2))

section \<open>Closing the socket\<close>

lemma send_command_loop_calls_recv:
  "send_command_loop_calls timeout ps buf = Some calls \<Longrightarrow> set calls \<subseteq> {Recv}"
proof (induction ps arbitrary: buf calls)
  case Nil
  then show ?case by simp
next
  case (Cons p ps)
  obtain t r ok where p: "p = (t, r, ok)" by (cases p)
  show ?case
  proof (cases "t < timeout \<and> (\<exists>c. r = Gives (Data c) \<and> c \<noteq> [] \<and> \<not> is_complete (decode (buf @ c)))")
    case True
    then obtain c where c: "t < timeout" "r = Gives (Data c)" "c \<noteq> []"
      "\<not> is_complete (decode (buf @ c))" by blast
    with Cons.prems p obtain calls' where
      "send_command_loop_calls timeout ps (buf @ c) = Some calls'" and "calls = Recv # calls'"
      by auto
    with Cons.IH show ?thesis by auto
  next
    case False
    with Cons.prems p show ?thesis
      by (auto split: if_splits recv_outcome.splits recv_result.splits)
  qed
qed

lemma send_command_loop_calls_exits:
  assumes "\<exists>(t, r, ok) \<in> set ps. \<not> t < timeout \<or> \<not> (\<exists>c. r = Gives (Data c) \<and> c \<noteq> [])"
  shows "send_command_loop_calls timeout ps buf \<noteq> None"
  using assms
proof (induction ps arbitrary: buf)
  case Nil
  then show ?case by simp
next
  case (Cons p ps)
  obtain t r ok where p: "p = (t, r, ok)" by (cases p)
  show ?case
  proof (cases "t < timeout \<and> (\<exists>c. r = Gives (Data c) \<and> c \<noteq> [] \<and> \<not> is_complete (decode (buf @ c)))")
    case True
    then obtain c where c: "t < timeout" "r = Gives (Data c)" "c \<noteq> []"
      "\<not> is_complete (decode (buf @ c))" by blast
    with Cons.prems p
    have "\<exists>(t, r, ok) \<in> set ps. \<not> t < timeout \<or> \<not> (\<exists>c. r = Gives (Data c) \<and> c \<noteq> [])"
      by auto
    from Cons.IH [OF this] c p show ?thesis by simp
  next
    case False
    with p show ?thesis
      by (auto split: recv_outcome.splits recv_result.splits)
  qed
qed

lemma stream_loop_calls_close:
  "stream_loop_calls deadline sentinel ps = Some (calls, left) \<Longrightarrow>
     (left = ReturnedInside \<longrightarrow> count_list calls Close = 1 \<and> calls \<noteq> [] \<and> last calls = Close)
     \<and> (left \<noteq> ReturnedInside \<longrightarrow> Close \<notin> set calls)"
proof (induction ps arbitrary: calls left)
  case Nil
  then show ?case by simp
next
  case (Cons p ps)
  obtain t r ok where p: "p = (t, r, ok)" by (cases p)
  let ?goal = "(left = ReturnedInside \<longrightarrow> count_list calls Close = 1 \<and> calls \<noteq> [] \<and> last calls = Close)
     \<and> (left \<noteq> ReturnedInside \<longrightarrow> Close \<notin> set calls)"
  have on: ?goal
    if "map_option (\<lambda>(calls, left). (SetTimeout # Recv # calls, left))
          (stream_loop_calls deadline sentinel ps) = Some (calls, left)"
  proof -
    from that obtain calls' where r: "stream_loop_calls deadline sentinel ps = Some (calls', left)"
      and c: "calls = SetTimeout # Recv # calls'"
      by auto
    from Cons.IH [OF r] c show ?thesis by auto
  qed
  show ?case
  proof (cases "t < deadline")
    case False
    with Cons.prems p show ?thesis by auto
  next
    case True
    show ?thesis
    proof (cases r)
      case Interrupted
      with Cons.prems p True show ?thesis by auto
    next
      case (Gives g)
      show ?thesis
      proof (cases g)
        case (Data data)
        with Cons.prems p True Gives on show ?thesis
          by (auto split: if_splits)
      next
        case SocketTimeout
        with Cons.prems p True Gives on show ?thesis
          by (auto split: if_splits)
      next
        case OtherException
        with Cons.prems p True Gives show ?thesis
          by (auto split: if_splits)
      qed
    qed
  qed
qed

text \<open>On plain sessions the call traces follow the loops of the earlier sections.\<close>

lemma send_command_loop_calls_plain:
  "(send_command_loop_calls timeout (map (\<lambda>(t, r). (t, Gives r, True)) evs) buf = None)
   = (read_loop timeout evs buf = None)"
proof (induction evs arbitrary: buf)
  case Nil
  then show ?case by simp
next
  case (Cons ev evs)
  obtain t r where ev: "ev = (t, r)" by (cases ev)
  show ?case
  proof (cases "t < timeout")
    case False
    with ev show ?thesis by simp
  next
    case True
    with ev Cons.IH show ?thesis
      by (cases r) simp_all
  qed
qed

lemma scan_lines_hit_iff:
  "snd (scan_lines width sentinel ls) = list_ex sentinel (filter (\<lambda>l. l \<noteq> []) ls)"
  by (induction ls) (auto split: prod.splits)

lemma stream_loop_calls_plain:
  "(stream_loop deadline width sentinel evs outp = None \<longrightarrow>
      stream_loop_calls deadline sentinel (map (\<lambda>(t, r). (t, Gives r, True)) evs) = None)
   \<and> (\<forall>reason items. stream_loop deadline width sentinel evs outp = Some (reason, items) \<longrightarrow>
        (\<exists>calls. stream_loop_calls deadline sentinel (map (\<lambda>(t, r). (t, Gives r, True)) evs)
                   = Some (calls, if reason = SentinelSeen then ReturnedInside else LoopEnded)))"
proof (induction evs arbitrary: outp)
  case Nil
  then show ?case by simp
next
  case (Cons ev evs)
  obtain t r where ev: "ev = (t, r)" by (cases ev)
  let ?lift = "map (\<lambda>(t, r). (t, Gives r, True))"
  show ?case
  proof (cases "t < deadline")
    case False
    with ev show ?thesis by auto
  next
    case True
    show ?thesis
    proof (cases r)
      case (Data data)
      obtain items hit where sc: "scan_lines width sentinel (split_nl (strip (decode data))) = (items, hit)"
        by (cases "scan_lines width sentinel (split_nl (strip (decode data)))")
      have hit: "hit = list_ex sentinel (filter (\<lambda>l. l \<noteq> []) (split_nl (strip (decode data))))"
        using scan_lines_hit_iff [of width sentinel "split_nl (strip (decode data))"] sc by simp
      show ?thesis
      proof (cases "data \<noteq> [] \<and> hit")
        case True
        then have "filter (\<lambda>l. l \<noteq> []) (split_nl (strip (decode data))) \<noteq> []"
          using hit by auto
        with True ev Data \<open>t < deadline\<close> sc hit show ?thesis by auto
      next
        case False
        have calls: "stream_loop_calls deadline sentinel (?lift (ev # evs))
              = map_option (\<lambda>(calls, left). (SetTimeout # Recv # calls, left))
                  (stream_loop_calls deadline sentinel (?lift evs))"
          using False ev Data \<open>t < deadline\<close> hit by auto
        have loop: "stream_loop deadline width sentinel (ev # evs) outp
              = stream_loop deadline width sentinel evs (if data \<noteq> [] then outp @ items else outp)"
          using False ev Data \<open>t < deadline\<close> sc by auto
        show ?thesis
          unfolding calls loop
          using Cons.IH [of "if data \<noteq> [] then outp @ items else outp"] by auto
      qed
    next
      case SocketTimeout
      have calls: "stream_loop_calls deadline sentinel (?lift (ev # evs))
            = map_option (\<lambda>(calls, left). (SetTimeout # Recv # calls, left))
                (stream_loop_calls deadline sentinel (?lift evs))"
        using ev SocketTimeout True by simp
      have loop: "stream_loop deadline width sentinel (ev # evs) outp
            = stream_loop deadline width sentinel evs (outp @ [Waiting])"
        using ev SocketTimeout True by simp
      show ?thesis
        unfolding calls loop using Cons.IH [of "outp @ [Waiting]"] by auto
    next
      case OtherException
      with ev True show ?thesis by auto
    qed
  qed
qed

lemma count_close_wrapped:
  assumes "Close \<notin> set calls"
  shows "count_list ([Create, SetTimeout, Connect, SendAll] @ calls @ [Close]) Close = 1"
  using assms by (simp add: count_list_0_iff)

lemma send_command_calls_close:
  assumes "send_command_calls timeout s = Some (calls, ending)"
  shows "count_list calls Close \<le> 1
         \<and> (ending = Returns \<longrightarrow> count_list calls Close = 1 \<and> last calls = Close)
         \<and> (ending = Propagates \<longrightarrow> Close \<notin> set calls \<and> (\<not> can_connect s \<or> \<not> can_send s))"
proof (cases "can_connect s \<and> can_send s")
  case False
  with assms show ?thesis
    by (auto simp: send_command_calls_def split: if_splits)
next
  case True
  with assms obtain lc where lc: "send_command_loop_calls timeout (passes s) [] = Some lc"
    and calls: "calls = [Create, SetTimeout, Connect, SendAll] @ lc @ [Close]"
    and e: "ending = Returns"
    by (auto simp: send_command_calls_def split: option.splits)
  from send_command_loop_calls_recv [OF lc] have "Close \<notin> set lc" by auto
  from count_close_wrapped [OF this] calls e show ?thesis by simp
qed

lemma test_script_execute_calls_close:
  assumes "test_script_execute_calls script_id s = Some (calls, ending)"
  shows "count_list calls Close \<le> 1
         \<and> (ending = Returns \<and> script_id \<noteq> [] \<longrightarrow> count_list calls Close = 1 \<and> last calls = Close)
         \<and> (ending = Propagates \<longrightarrow> Close \<notin> set calls)"
proof (cases "script_id \<noteq> [] \<and> can_connect s \<and> can_print s \<and> can_send s")
  case False
  with assms show ?thesis
    by (auto simp: test_script_execute_calls_def split: if_splits)
next
  case True
  with assms obtain lc left where lc: "stream_loop_calls 180 script_sentinel (passes s) = Some (lc, left)"
    by (auto simp: test_script_execute_calls_def split: option.splits)
  note inv = stream_loop_calls_close [OF lc]
  show ?thesis
  proof (cases left)
    case LoopEnded
    with assms True lc have calls: "calls = [Create, SetTimeout, Connect, SendAll] @ lc @ [Close]"
      and e: "ending = Returns"
      by (simp_all add: test_script_execute_calls_def)
    from inv LoopEnded have "Close \<notin> set lc" by simp
    from count_close_wrapped [OF this] calls e show ?thesis by simp
  next
    case ReturnedInside
    with assms True lc have calls: "calls = [Create, SetTimeout, Connect, SendAll] @ lc"
      and e: "ending = Returns"
      by (simp_all add: test_script_execute_calls_def)
    from inv ReturnedInside have "count_list lc Close = 1" "lc \<noteq> []" "last lc = Close"
      by simp_all
    with calls e show ?thesis by simp
  next
    case ExceptionLeft
    with assms True lc have calls: "calls = [Create, SetTimeout, Connect, SendAll] @ lc"
      and e: "ending = Propagates"
      by (simp_all add: test_script_execute_calls_def)
    from inv ExceptionLeft have "Close \<notin> set lc" by simp
    with calls e show ?thesis by (simp add: count_list_0_iff)
  qed
qed

lemma send_command_calls_plain:
  "map_option (\<lambda>(calls, ending). count_list calls Close) (send_command_calls timeout (plain_session e))
   = map_option fst (send_command timeout e)"
proof (cases "connect_ok e \<and> send_ok e")
  case False
  then show ?thesis
    by (auto simp: send_command_calls_def send_command_def plain_session_def)
next
  case True
  let ?ps = "map (\<lambda>(t, r). (t, Gives r, True)) (events e)"
  show ?thesis
  proof (cases "read_loop timeout (events e) []")
    case None
    then have "send_command_loop_calls timeout ?ps [] = None"
      by (simp add: send_command_loop_calls_plain)
    with None True show ?thesis
      by (simp add: send_command_calls_def send_command_def plain_session_def)
  next
    case (Some res)
    then have "send_command_loop_calls timeout ?ps [] \<noteq> None"
      by (simp add: send_command_loop_calls_plain)
    then obtain lc where lc: "send_command_loop_calls timeout ?ps [] = Some lc" by auto
    from send_command_loop_calls_recv [OF lc] have "Close \<notin> set lc" by auto
    from count_close_wrapped [OF this] lc Some True show ?thesis
      by (cases res) (simp add: send_command_calls_def send_command_def plain_session_def)
  qed
qed

lemma test_script_execute_calls_plain:
  "map_option (\<lambda>(calls, ending). count_list calls Close)
     (test_script_execute_calls script_id (plain_session e))
   = map_option fst (test_script_execute script_id e)"
proof (cases "script_id \<noteq> [] \<and> connect_ok e \<and> send_ok e")
  case False
  then show ?thesis
    by (auto simp: test_script_execute_calls_def test_script_execute_def stream_session_def
          plain_session_def)
next
  case True
  let ?ps = "map (\<lambda>(t, r). (t, Gives r, True)) (events e)"
  note rel = stream_loop_calls_plain [of 180 300 script_sentinel "events e" "[]"]
  show ?thesis
  proof (cases "stream_loop 180 300 script_sentinel (events e) []")
    case None
    with rel have "stream_loop_calls 180 script_sentinel ?ps = None" by simp
    with None True show ?thesis
      by (simp add: test_script_execute_calls_def test_script_execute_def stream_session_def
            plain_session_def)
  next
    case (Some res)
    obtain reason items where res: "res = (reason, items)" by (cases res)
    with Some rel obtain lc where lc: "stream_loop_calls 180 script_sentinel ?ps
        = Some (lc, if reason = SentinelSeen then ReturnedInside else LoopEnded)"
      by auto
    note inv = stream_loop_calls_close [OF lc]
    show ?thesis
    proof (cases "reason = SentinelSeen")
      case True
      with inv have "count_list lc Close = 1" by simp
      with True lc Some res \<open>script_id \<noteq> [] \<and> connect_ok e \<and> send_ok e\<close> show ?thesis
        by (simp add: test_script_execute_calls_def test_script_execute_def stream_session_def
              plain_session_def closes_in_loop_def closes_after_loop_def)
    next
      case False
      with inv have "Close \<notin> set lc" by simp
      from count_close_wrapped [OF this] False lc Some res
        \<open>script_id \<noteq> [] \<and> connect_ok e \<and> send_ok e\<close> show ?thesis
        by (simp add: test_script_execute_calls_def test_script_execute_def stream_session_def
              plain_session_def closes_in_loop_def closes_after_loop_def)
    qed
  qed
qed

text \<open>
  Claim C4, as the code has it. In \<open>send_command\<close> and in \<open>test_script_execute\<close> the socket
  is never closed twice. Whenever the function returns with a socket made (normal
  completion, a closed connection, a read timeout, the deadline, an exception caught
  inside the loop, a sentinel line), \<^verbatim>\<open>s.close()\<close> has been called exactly once, as the
  last call on the socket; and \<open>send_command\<close> does return whenever the peer stops sending,
  a read fails or the deadline passes. Whenever an exception leaves the function, the
  socket has not been closed: there is no \<^verbatim>\<open>try\<close>/\<^verbatim>\<open>finally\<close>. In \<open>send_command\<close> this
  happens only when \<^verbatim>\<open>connect\<close> or \<^verbatim>\<open>sendall\<close> raises. On the sessions that an \<open>env\<close> can
  describe, the number of \<open>Close\<close> calls is the count given in the earlier sections.
\<close>

theorem socket_close_calls:
  "(send_command_calls timeout s = Some (calls, ending) \<longrightarrow>
      count_list calls Close \<le> 1
      \<and> (ending = Returns \<longrightarrow> count_list calls Close = 1 \<and> last calls = Close)
      \<and> (ending = Propagates \<longrightarrow> Close \<notin> set calls \<and> (\<not> can_connect s \<or> \<not> can_send s)))
   \<and> (test_script_execute_calls script_id s = Some (calls', ending') \<longrightarrow>
      count_list calls' Close \<le> 1
      \<and> (ending' = Returns \<and> script_id \<noteq> [] \<longrightarrow> count_list calls' Close = 1 \<and> last calls' = Close)
      \<and> (ending' = Propagates \<longrightarrow> Close \<notin> set calls'))
   \<and> (can_connect s \<and> can_send s
       \<and> (\<exists>(t, r, ok) \<in> set (passes s). \<not> t < timeout \<or> \<not> (\<exists>c. r = Gives (Data c) \<and> c \<noteq> []))
      \<longrightarrow> (\<exists>calls. send_command_calls timeout s = Some (calls, Returns)))
   \<and> map_option (\<lambda>(calls, ending). count_list calls Close)
        (send_command_calls timeout (plain_session e))
      = map_option fst (send_command timeout e)
   \<and> map_option (\<lambda>(calls, ending). count_list calls Close)
        (test_script_execute_calls script_id (plain_session e))
      = map_option fst (test_script_execute script_id e)"
proof -
  have c: "can_connect s \<and> can_send s
       \<and> (\<exists>(t, r, ok) \<in> set (passes s). \<not> t < timeout \<or> \<not> (\<exists>c. r = Gives (Data c) \<and> c \<noteq> []))
      \<longrightarrow> (\<exists>calls. send_command_calls timeout s = Some (calls, Returns))"
  proof
    assume h: "can_connect s \<and> can_send s
       \<and> (\<exists>(t, r, ok) \<in> set (passes s). \<not> t < timeout \<or> \<not> (\<exists>c. r = Gives (Data c) \<and> c \<noteq> []))"
    then have "send_command_loop_calls timeout (passes s) [] \<noteq> None"
      using send_command_loop_calls_exits by blast
    then obtain lc where "send_command_loop_calls timeout (passes s) [] = Some lc" by auto
    with h show "\<exists>calls. send_command_calls timeout s = Some (calls, Returns)"
      by (simp add: send_command_calls_def)
  qed
  from send_command_calls_close [of timeout s calls ending]
    test_script_execute_calls_close [of script_id s calls' ending']
    c send_command_calls_plain [of timeout e] test_script_execute_calls_plain [of script_id e]
  show ?thesis by blast
qed

theorem socket_close_calls_witness:
  \<open>send_command_calls 60
      \<lparr>can_connect = True, can_print = True, can_send = True,
       passes = [(1, Gives (Data (bytes_of ''{"id":"s1"'')), True), (59, Interrupted, True)]\<rparr>
    = Some ([Create, SetTimeout, Connect, SendAll, Recv, Recv, Close], Returns)
   \<and> count_list [Create, SetTimeout, Connect, SendAll, Recv, Recv, Close] Close = 1
   \<and> test_script_execute_calls (str ''s1'')
      \<lparr>can_connect = True, can_print = True, can_send = True,
       passes = [(1, Gives SocketTimeout, True),
                 (11, Gives (Data (bytes_of ''SCRIPT_COMPLETE'')), True)]\<rparr>
    = Some ([Create, SetTimeout, Connect, SendAll, SetTimeout, Recv, SetTimeout, Recv, Close],
            Returns)
   \<and> count_list [Create, SetTimeout, Connect, SendAll, SetTimeout, Recv, SetTimeout, Recv, Close]
        Close = 1\<close>
proof -
  let ?s1 = \<open>\<lparr>can_connect = True, can_print = True, can_send = True,
       passes = [(1::nat, Gives (Data (bytes_of ''{"id":"s1"'')), True), (59, Interrupted, True)]\<rparr>\<close>
  let ?s2 = \<open>\<lparr>can_connect = True, can_print = True, can_send = True,
       passes = [(1::nat, Gives SocketTimeout, True),
                 (11, Gives (Data (bytes_of ''SCRIPT_COMPLETE'')), True)]\<rparr>\<close>
  let ?c1 = "[Create, SetTimeout, Connect, SendAll, Recv, Recv, Close]"
  let ?c2 = "[Create, SetTimeout, Connect, SendAll, SetTimeout, Recv, SetTimeout, Recv, Close]"
  have r1: "send_command_calls 60 ?s1 = Some (?c1, Returns)"
    by (simp add: send_command_calls_def is_complete_def text_eval)
  have r2: "test_script_execute_calls (str ''s1'') ?s2 = Some (?c2, Returns)"
    by (simp add: test_script_execute_calls_def script_sentinel_def text_eval
          del: split_nl.simps(2))
  have ne: "str ''s1'' \<noteq> []" by (simp add: str_def)
  from socket_close_calls [of 60 ?s1 ?c1 Returns] r1
  have k1: "count_list ?c1 Close = 1" by blast
  from socket_close_calls [of _ ?s2 _ _ "str ''s1''" ?c2 Returns] r2 ne
  have k2: "count_list ?c2 Close = 1" by blast
  from r1 r2 k1 k2 show ?thesis by blast
qed

text \<open>
  Sessions that end with the socket never closed: a refused connection and a failed send
  in \<open>send_command\<close>, and in \<open>test_script_execute\<close> a \<^verbatim>\<open>recv\<close> interrupted by an exception
  that is not an \<^verbatim>\<open>Exception\<close>, and a read timeout whose handler cannot print.
\<close>

theorem socket_not_closed_counterexample:
  \<open>send_command_calls 60
      \<lparr>can_connect = False, can_print = True, can_send = True, passes = []\<rparr>
    = Some ([Create, SetTimeout, Connect], Propagates)
   \<and> send_command_calls 60
      \<lparr>can_connect = True, can_print = True, can_send = False, passes = []\<rparr>
    = Some ([Create, SetTimeout, Connect, SendAll], Propagates)
   \<and> test_script_execute_calls (str ''s1'')
      \<lparr>can_connect = True, can_print = True, can_send = True,
       passes = [(5, Interrupted, True)]\<rparr>
    = Some ([Create, SetTimeout, Connect, SendAll, SetTimeout, Recv], Propagates)
   \<and> test_script_execute_calls (str ''s1'')
      \<lparr>can_connect = True, can_print = True, can_send = True,
       passes = [(5, Gives SocketTimeout, False)]\<rparr>
    = Some ([Create, SetTimeout, Connect, SendAll, SetTimeout, Recv], Propagates)\<close>
  by (simp add: send_command_calls_def test_script_execute_calls_def str_def)

section \<open>Deduplication of printed lines\<close>

lemma for_lines_fresh:
  "for_lines render ls (seen, outp)
   = (seen \<union> {l \<in> set ls. l \<noteq> []}, outp @ List.map_filter render (fresh_lines ls seen))"
proof (induction ls arbitrary: seen outp)
  case Nil
  then show ?case by (simp add: List.map_filter_simps)
next
  case (Cons l ls)
  show ?case
  proof (cases "l \<noteq> [] \<and> l \<notin> seen")
    case True
    then show ?thesis
      by (cases "render l") (auto simp: Cons.IH List.map_filter_simps)
  next
    case False
    then show ?thesis
      by (auto simp: Cons.IH)
  qed
qed

lemma fresh_lines_set: "set (fresh_lines ls seen) = {l \<in> set ls. l \<noteq> []} - seen"
  by (induction ls arbitrary: seen) auto

lemma fresh_lines_distinct: "distinct (fresh_lines ls seen)"
  by (induction ls arbitrary: seen) (auto simp: fresh_lines_set)

lemma fresh_lines_all_seen:
  "\<forall>l\<in>set ls. l = [] \<or> l \<in> seen \<Longrightarrow> fresh_lines ls seen = []"
  by (induction ls arbitrary: seen) auto

lemma for_lines_twice:
  "for_lines render ls (for_lines render ls (seen, outp)) = for_lines render ls (seen, outp)"
proof -
  have "fresh_lines ls (seen \<union> {l \<in> set ls. l \<noteq> []}) = []"
    by (rule fresh_lines_all_seen) auto
  then show ?thesis
    by (auto simp: for_lines_fresh List.map_filter_simps)
qed

text \<open>The invariant of the printing loop of run\_script.py.\<close>

lemma print_step:
  assumes "distinct outp" and "ErrorLine \<notin> set outp" and "seen = {l. Line l \<in> set outp}"
    and "for_lines (\<lambda>line. Some (Line line)) ls (seen, outp) = (seen', outp')"
  shows "distinct outp' \<and> ErrorLine \<notin> set outp' \<and> seen' = {l. Line l \<in> set outp'}
         \<and> (\<forall>l\<in>set ls. l \<noteq> [] \<longrightarrow> l \<in> seen')"
proof -
  have mf: "List.map_filter (\<lambda>line. Some (Line line)) (fresh_lines ls seen)
            = map Line (fresh_lines ls seen)"
    by (simp add: List.map_filter_def comp_def)
  from assms(4) have s: "seen' = seen \<union> {l \<in> set ls. l \<noteq> []}"
    and o: "outp' = outp @ map Line (fresh_lines ls seen)"
    by (simp_all add: for_lines_fresh mf)
  have d: "distinct (map Line (fresh_lines ls seen))"
    by (simp add: distinct_map fresh_lines_distinct inj_on_def)
  have disj: "set outp \<inter> set (map Line (fresh_lines ls seen)) = {}"
    using assms(2,3) by (auto simp: fresh_lines_set)
  have "distinct outp'"
    unfolding o using assms(1) d disj by simp
  moreover have "ErrorLine \<notin> set outp'"
    unfolding o using assms(2) by auto
  moreover have "seen' = {l. Line l \<in> set outp'}"
    unfolding s o using assms(3) by (auto simp: fresh_lines_set)
  moreover have "\<forall>l\<in>set ls. l \<noteq> [] \<longrightarrow> l \<in> seen'"
    unfolding s by auto
  ultimately show ?thesis by blast
qed

lemma run_script_loop_once:
  assumes "run_script_loop evs st = Some (reason, st')"
    and "distinct (out st)" and "ErrorLine \<notin> set (out st)"
    and "printed st = {l. Line l \<in> set (out st)}"
    and "\<forall>l\<in>set (split_nl (strip (decode (all_data st)))). l \<noteq> [] \<longrightarrow> l \<in> printed st"
  shows "distinct (out st') \<and> printed st' = {l. Line l \<in> set (out st')}
         \<and> (\<forall>l\<in>set (split_nl (strip (decode (all_data st')))). l \<noteq> [] \<longrightarrow> l \<in> printed st')"
  using assms
proof (induction evs arbitrary: st)
  case Nil
  then show ?case by simp
next
  case (Cons ev evs)
  obtain t r where ev: "ev = (t, r)" by (cases ev)
  show ?case
  proof (cases "t < 180")
    case False
    with Cons.prems ev show ?thesis by auto
  next
    case True
    show ?thesis
    proof (cases r)
      case (Data chunk)
      show ?thesis
      proof (cases "chunk = []")
        case True
        with Cons.prems ev Data \<open>t < 180\<close> show ?thesis by auto
      next
        case ne: False
        obtain seen outp where fl:
          "for_lines (\<lambda>line. Some (Line line)) (split_nl (strip (decode (all_data st @ chunk))))
             (printed st, out st) = (seen, outp)"
          by (cases "for_lines (\<lambda>line. Some (Line line)) (split_nl (strip (decode (all_data st @ chunk))))
             (printed st, out st)")
        let ?st1 = "\<lparr>all_data = all_data st @ chunk, printed = seen, out = outp\<rparr>"
        from print_step [OF Cons.prems(2,3,4) fl]
        have inv: "distinct (out ?st1)" "ErrorLine \<notin> set (out ?st1)"
          "printed ?st1 = {l. Line l \<in> set (out ?st1)}"
          "\<forall>l\<in>set (split_nl (strip (decode (all_data ?st1)))). l \<noteq> [] \<longrightarrow> l \<in> printed ?st1"
          by auto
        show ?thesis
        proof (cases "run_script_complete (decode (all_data st @ chunk))")
          case True
          with Cons.prems(1) ev Data \<open>t < 180\<close> ne fl
          have "st' = ?st1" by (simp add: Let_def)
          with inv show ?thesis by simp
        next
          case False
          with Cons.prems(1) ev Data \<open>t < 180\<close> ne fl
          have "run_script_loop evs ?st1 = Some (reason, st')" by (simp add: Let_def)
          from Cons.IH [OF this inv] show ?thesis .
        qed
      qed
    next
      case SocketTimeout
      with Cons.prems ev True have "run_script_loop evs st = Some (reason, st')" by simp
      from Cons.IH [OF this Cons.prems(2,3,4,5)] show ?thesis .
    next
      case OtherException
      with Cons.prems(1) ev True have "st' = st\<lparr>out := out st @ [ErrorLine]\<rparr>" by simp
      with Cons.prems(2,3,4,5) show ?thesis by auto
    qed
  qed
qed

lemma count_list_distinct: "distinct xs \<Longrightarrow> x \<in> set xs \<Longrightarrow> count_list xs x = 1"
  by (induction xs) (auto simp: count_list_0_iff)

text \<open>
  Claim C5, as the code has it. A line is identified by its raw text, as the split of the
  stripped buffer gives it. Presenting the same raw lines to the loop a second time
  changes nothing: no raw line is handled or printed twice, whatever the handler. Over a
  whole session of run\_script.py no raw line is printed twice, and every non-empty raw
  line of the final buffer, which was presented again at each read after it arrived, has
  been printed exactly once.
\<close>

theorem printed_line_exactly_once:
  "for_lines render ls (for_lines render ls (seen, outp)) = for_lines render ls (seen, outp)
   \<and> (run_script evs = Some (reason, st) \<longrightarrow>
        distinct (out st)
        \<and> (\<forall>l\<in>set (split_nl (strip (decode (all_data st)))).
              l \<noteq> [] \<longrightarrow> count_list (out st) (Line l) = 1))"
proof -
  have b: "run_script evs = Some (reason, st) \<longrightarrow>
        distinct (out st)
        \<and> (\<forall>l\<in>set (split_nl (strip (decode (all_data st)))).
              l \<noteq> [] \<longrightarrow> count_list (out st) (Line l) = 1)"
  proof
    assume r: "run_script evs = Some (reason, st)"
    let ?i = "\<lparr>all_data = [], printed = {}, out = []\<rparr> :: printed_item loop_state"
    have i5: "\<forall>l\<in>set (split_nl (strip (decode (all_data ?i)))). l \<noteq> [] \<longrightarrow> l \<in> printed ?i"
      by (simp add: strip_def lstrip_def rstrip_def)
    from r have "run_script_loop evs ?i = Some (reason, st)"
      by (simp add: run_script_def)
    from run_script_loop_once [OF this _ _ _ i5]
    have res: "distinct (out st)" "printed st = {l. Line l \<in> set (out st)}"
      "\<forall>l\<in>set (split_nl (strip (decode (all_data st)))). l \<noteq> [] \<longrightarrow> l \<in> printed st"
      by auto
    show "distinct (out st)
        \<and> (\<forall>l\<in>set (split_nl (strip (decode (all_data st)))).
              l \<noteq> [] \<longrightarrow> count_list (out st) (Line l) = 1)"
      using res by (auto simp: count_list_distinct)
  qed
  from for_lines_twice b show ?thesis by blast
qed

lemma run_two_lines:
  \<open>run_script [(1, Data (bytes_of ''{"log":"a"}'' @ [10])), (2, Data (bytes_of ''{"status":"complete"}''))]
   = Some (Completed,
       \<lparr>all_data = bytes_of ''{"log":"a"}'' @ [10] @ bytes_of ''{"status":"complete"}'',
        printed = {str ''{"status":"complete"}'', str ''{"log":"a"}''},
        out = [Line (str ''{"log":"a"}''), Line (str ''{"status":"complete"}'')]\<rparr>)\<close>
  by (simp add: run_script_def run_script_complete_def endswith_brace_def Let_def text_eval
        del: split_nl.simps(2))

theorem printed_line_exactly_once_witness:
  \<open>\<exists>st. run_script [(1, Data (bytes_of ''{"log":"a"}'' @ [10])),
                     (2, Data (bytes_of ''{"status":"complete"}''))] = Some (Completed, st)
        \<and> out st = [Line (str ''{"log":"a"}''), Line (str ''{"status":"complete"}'')]
        \<and> distinct (out st)
        \<and> count_list (out st) (Line (str ''{"log":"a"}'')) = 1\<close>
proof -
  let ?evs = \<open>[(1::nat, Data (bytes_of ''{"log":"a"}'' @ [10])),
               (2, Data (bytes_of ''{"status":"complete"}''))]\<close>
  let ?st = \<open>\<lparr>all_data = bytes_of ''{"log":"a"}'' @ [10] @ bytes_of ''{"status":"complete"}'',
        printed = {str ''{"status":"complete"}'', str ''{"log":"a"}''},
        out = [Line (str ''{"log":"a"}''), Line (str ''{"status":"complete"}'')]\<rparr>\<close>
  have mem: \<open>str ''{"log":"a"}'' \<in> set (split_nl (strip (decode (all_data ?st))))\<close>
    by (simp add: text_eval del: split_nl.simps(2))
  have ne: \<open>str ''{"log":"a"}'' \<noteq> []\<close>
    by (simp add: str_def)
  from printed_line_exactly_once [of _ _ _ _ ?evs Completed ?st] run_two_lines
  have \<open>distinct (out ?st)
        \<and> (\<forall>l\<in>set (split_nl (strip (decode (all_data ?st)))).
              l \<noteq> [] \<longrightarrow> count_list (out ?st) (Line l) = 1)\<close>
    by blast
  with mem ne have \<open>distinct (out ?st) \<and> count_list (out ?st) (Line (str ''{"log":"a"}'')) = 1\<close>
    by blast
  with run_two_lines show ?thesis by auto
qed

text \<open>
  One logical line can have two raw texts. \<^verbatim>\<open>strip\<close> works on the whole buffer, so a
  completed line that ends in a carriage return is presented without it while it is the
  last line of the buffer and with it once more bytes have arrived, and it is printed for
  each of the two.
\<close>

theorem line_with_carriage_return_counterexample:
  \<open>map_option (\<lambda>(reason, st). out st)
     (run_script [(1, Data (bytes_of ''{"log":"a"}'' @ [13, 10])),
                  (2, Data (bytes_of ''{"status":"complete"}''))])
   = Some [Line (str ''{"log":"a"}''), Line (str ''{"log":"a"}'' @ [13]),
           Line (str ''{"status":"complete"}'')]\<close>
  by (simp add: run_script_def run_script_complete_def endswith_brace_def Let_def text_eval
        del: split_nl.simps(2))

section \<open>A line that arrives in two reads\<close>

lemma fresh_lines_append:
  "fresh_lines (xs @ ys) seen
   = fresh_lines xs seen @ fresh_lines ys (seen \<union> {l \<in> set xs. l \<noteq> []})"
proof (induction xs arbitrary: seen)
  case Nil
  then show ?case by simp
next
  case (Cons x xs)
  have e1: "insert x seen \<union> {l \<in> set xs. l \<noteq> []} = seen \<union> {l \<in> set (x # xs). l \<noteq> []}"
    if "x \<noteq> []"
    using that by auto
  have e2: "seen \<union> {l \<in> set xs. l \<noteq> []} = seen \<union> {l \<in> set (x # xs). l \<noteq> []}"
    if "x = [] \<or> x \<in> seen"
    using that by auto
  show ?case
  proof (cases "x \<noteq> [] \<and> x \<notin> seen")
    case True
    then show ?thesis using Cons.IH [of "insert x seen"] e1 by simp
  next
    case False
    then show ?thesis using Cons.IH [of seen] e2 by auto
  qed
qed

lemma map_filter_Line: "List.map_filter (\<lambda>line. Some (Line line)) ls = map Line ls"
  by (simp add: List.map_filter_def comp_def)

text \<open>
  Claim C10, as the code has it. Take two reads before the deadline. If the buffer after
  the first read ends in the line \<open>x\<close> (an incomplete prefix), the same position holds the
  line \<open>y\<close> after the second read, the buffer is not complete after the first read, and
  neither \<open>x\<close> nor \<open>y\<close> is empty, has been printed before or occurs among the earlier lines,
  then run\_script.py prints \<open>x\<close> at the first read and \<open>y\<close> directly after it at the second
  read: the same logical line is surfaced twice.
\<close>

theorem split_line_printed_twice:
  assumes "t1 < 180" and "t2 < 180" and "p \<noteq> []" and "q \<noteq> []"
    and "split_nl (strip (decode (all_data st @ p))) = ls @ [x]"
    and "split_nl (strip (decode (all_data st @ p @ q))) = ls @ y # ls'"
    and "x \<noteq> []" and "x \<notin> printed st" and "x \<notin> set ls"
    and "y \<noteq> []" and "y \<notin> printed st" and "y \<notin> set ls" and "y \<noteq> x"
    and "\<not> run_script_complete (decode (all_data st @ p))"
  shows "\<exists>st2 o1 o2.
           out st2 = out st @ o1 @ [Line x, Line y] @ o2
           \<and> all_data st2 = all_data st @ p @ q
           \<and> run_script_loop ((t1, Data p) # (t2, Data q) # evs) st
               = (if run_script_complete (decode (all_data st @ p @ q))
                  then Some (Completed, st2) else run_script_loop evs st2)"
proof -
  define P where "P = printed st"
  define S1 where "S1 = P \<union> {l \<in> set (ls @ [x]). l \<noteq> []}"
  define O1 where "O1 = out st @ map Line (fresh_lines ls P) @ [Line x]"
  define S2 where "S2 = S1 \<union> {l \<in> set (ls @ y # ls'). l \<noteq> []}"
  define O2 where "O2 = O1 @ Line y # map Line (fresh_lines ls' (insert y S1))"
  let ?st1 = "\<lparr>all_data = all_data st @ p, printed = S1, out = O1\<rparr>"
  let ?st2 = "\<lparr>all_data = all_data st @ p @ q, printed = S2, out = O2\<rparr>"
  have xnew: "x \<notin> P \<union> {l \<in> set ls. l \<noteq> []}"
    using assms(8,9) by (simp add: P_def)
  have "fresh_lines (ls @ [x]) P = fresh_lines ls P @ fresh_lines [x] (P \<union> {l \<in> set ls. l \<noteq> []})"
    by (rule fresh_lines_append)
  also have "fresh_lines [x] (P \<union> {l \<in> set ls. l \<noteq> []}) = [x]"
    using assms(7) xnew by simp
  finally have f1: "fresh_lines (ls @ [x]) P = fresh_lines ls P @ [x]" .
  have fl1: "for_lines (\<lambda>line. Some (Line line)) (ls @ [x]) (printed st, out st) = (S1, O1)"
    unfolding for_lines_fresh map_filter_Line P_def [symmetric] f1 S1_def O1_def by simp
  have seen_ls: "fresh_lines ls S1 = []"
    by (rule fresh_lines_all_seen) (auto simp: S1_def)
  have s1: "S1 \<union> {l \<in> set ls. l \<noteq> []} = S1"
    by (auto simp: S1_def)
  have ynew: "y \<notin> S1"
    using assms(11,12,13) by (auto simp: S1_def P_def)
  have "fresh_lines (ls @ y # ls') S1
        = fresh_lines ls S1 @ fresh_lines (y # ls') (S1 \<union> {l \<in> set ls. l \<noteq> []})"
    by (rule fresh_lines_append)
  also have "\<dots> = fresh_lines (y # ls') S1"
    unfolding seen_ls s1 by simp
  also have "\<dots> = y # fresh_lines ls' (insert y S1)"
    using assms(10) ynew by simp
  finally have f2: "fresh_lines (ls @ y # ls') S1 = y # fresh_lines ls' (insert y S1)" .
  have fl2: "for_lines (\<lambda>line. Some (Line line)) (ls @ y # ls') (S1, O1) = (S2, O2)"
    unfolding for_lines_fresh map_filter_Line f2 S2_def O2_def by simp
  have step1: "run_script_loop ((t1, Data p) # (t2, Data q) # evs) st
               = run_script_loop ((t2, Data q) # evs) ?st1"
    using assms(1,3,14) fl1 by (simp add: assms(5) Let_def)
  have step2: "run_script_loop ((t2, Data q) # evs) ?st1
               = (if run_script_complete (decode (all_data st @ p @ q))
                  then Some (Completed, ?st2) else run_script_loop evs ?st2)"
    using assms(2,4) fl2 by (simp add: assms(6) Let_def)
  have "out ?st2 = out st @ map Line (fresh_lines ls P) @ [Line x, Line y]
                     @ map Line (fresh_lines ls' (insert y S1))"
    by (simp add: O2_def O1_def)
  moreover have "all_data ?st2 = all_data st @ p @ q" by simp
  moreover note step1 [unfolded step2]
  ultimately show ?thesis by blast
qed

theorem split_line_printed_twice_witness:
  \<open>\<exists>st o1 o2.
      run_script [(1, Data (bytes_of ''{"lo'')), (2, Data (bytes_of ''g":"x"}'')), (3, Data [])]
        = Some (ClosedEarly, st)
      \<and> out st = o1 @ [Line (str ''{"lo''), Line (str ''{"log":"x"}'')] @ o2\<close>
proof -
  let ?i = "\<lparr>all_data = [], printed = {}, out = []\<rparr> :: printed_item loop_state"
  let ?p = \<open>bytes_of ''{"lo''\<close>
  let ?q = \<open>bytes_of ''g":"x"}''\<close>
  let ?x = \<open>str ''{"lo''\<close>
  let ?y = \<open>str ''{"log":"x"}''\<close>
  have h1: "(1::nat) < 180" and h2: "(2::nat) < 180" by simp_all
  have h3: "?p \<noteq> []" and h4: "?q \<noteq> []" by (simp_all add: bytes_of_def)
  have h5: "split_nl (strip (decode (all_data ?i @ ?p))) = [] @ [?x]"
    by (simp add: text_eval del: split_nl.simps(2))
  have h6: "split_nl (strip (decode (all_data ?i @ ?p @ ?q))) = [] @ ?y # []"
    by (simp add: text_eval del: split_nl.simps(2))
  have h7: "?x \<noteq> []" and h10: "?y \<noteq> []" and h13: "?y \<noteq> ?x" by (simp_all add: str_def)
  have h8: "?x \<notin> printed ?i" and h11: "?y \<notin> printed ?i" by simp_all
  have h9: "?x \<notin> set []" and h12: "?y \<notin> set []" by simp_all
  have h14: "\<not> run_script_complete (decode (all_data ?i @ ?p))"
    by (simp add: run_script_complete_def text_eval)
  have nc: "\<not> run_script_complete (decode (all_data ?i @ ?p @ ?q))"
    by (simp add: run_script_complete_def text_eval)
  from split_line_printed_twice [OF h1 h2 h3 h4 h5 h6 h7 h8 h9 h10 h11 h12 h13 h14,
      of "[(3, Data [])]"]
  obtain st2 o1 o2 where o: "out st2 = out ?i @ o1 @ [Line ?x, Line ?y] @ o2"
    and r: "run_script_loop ((1, Data ?p) # (2, Data ?q) # [(3, Data [])]) ?i
            = (if run_script_complete (decode (all_data ?i @ ?p @ ?q))
               then Some (Completed, st2) else run_script_loop [(3, Data [])] st2)"
    by blast
  from r nc have "run_script [(1, Data ?p), (2, Data ?q), (3, Data [])] = Some (ClosedEarly, st2)"
    by (simp add: run_script_def)
  moreover from o have "out st2 = o1 @ [Line ?x, Line ?y] @ o2" by simp
  ultimately show ?thesis by blast
qed

text \<open>
  Without these conditions the completed line need not be printed again. Here the second
  line arrives in two reads and equals the first line: its prefix is printed, and after
  the rest has arrived nothing more is printed.
\<close>

theorem split_line_duplicate_counterexample:
  \<open>map_option (\<lambda>(reason, st). out st)
     (run_script [(1, Data (bytes_of ''{"log":"x"}'' @ [10] @ bytes_of ''{"lo'')),
                  (2, Data (bytes_of ''g":"x"}'' @ [10])),
                  (3, Data [])])
   = Some [Line (str ''{"log":"x"}''), Line (str ''{"lo'')]\<close>
  by (simp add: run_script_def run_script_complete_def Let_def text_eval
        del: split_nl.simps(2))

section \<open>Delivery in one chunk and byte by byte\<close>

lemma fresh_lines_insert_absent:
  "x \<notin> set ys \<Longrightarrow> fresh_lines ys (insert x S) = fresh_lines ys S"
proof (induction ys arbitrary: S)
  case Nil
  then show ?case by simp
next
  case (Cons y ys)
  then have "x \<noteq> y" and "x \<notin> set ys" by auto
  with Cons.IH [of "insert y S"] Cons.IH [of S] show ?case
    by (auto simp: insert_commute)
qed

lemma fresh_lines_filter:
  "filter E (fresh_lines xs S) = fresh_lines (filter E xs) S"
proof (induction xs arbitrary: S)
  case Nil
  then show ?case by simp
next
  case (Cons x xs)
  show ?case
  proof (cases "E x")
    case True
    with Cons.IH show ?thesis by simp
  next
    case False
    then have "x \<notin> set (filter E xs)" by simp
    then have "fresh_lines (filter E xs) (insert x S) = fresh_lines (filter E xs) S"
      by (rule fresh_lines_insert_absent)
    with False Cons.IH show ?thesis by simp
  qed
qed

lemma fresh_lines_nonempty: "l \<in> set (fresh_lines xs S) \<Longrightarrow> l \<noteq> []"
  by (simp add: fresh_lines_set)

lemma map_filter_emitting:
  assumes "\<forall>l\<in>set xs. l \<noteq> []"
  shows "List.map_filter render xs
         = List.map_filter render (filter (\<lambda>l. l \<noteq> [] \<and> render l \<noteq> None) xs)"
proof -
  have "filter (\<lambda>l. l \<noteq> [] \<and> render l \<noteq> None) xs = filter (\<lambda>l. render l \<noteq> None) xs"
    using assms by (intro filter_cong) auto
  then show ?thesis
    by (simp add: List.map_filter_def)
qed

lemma map_filter_fresh:
  "List.map_filter render (fresh_lines xs S)
   = List.map_filter render (fresh_lines (filter (\<lambda>l. l \<noteq> [] \<and> render l \<noteq> None) xs) S)"
proof -
  have "\<forall>l\<in>set (fresh_lines xs S). l \<noteq> []"
    by (simp add: fresh_lines_set)
  from map_filter_emitting [OF this] show ?thesis
    by (simp only: fresh_lines_filter)
qed

lemma fresh_lines_prefix:
  assumes "prefix p zs"
  shows "fresh_lines (p @ zs) S = fresh_lines zs S"
proof -
  from assms obtain r where zs: "zs = p @ r" by (auto simp: prefix_def)
  let ?S' = "S \<union> {l \<in> set p. l \<noteq> []}"
  have again: "fresh_lines p ?S' = []"
    by (rule fresh_lines_all_seen) auto
  have "fresh_lines (p @ p @ r) S = fresh_lines p S @ fresh_lines (p @ r) ?S'"
    by (rule fresh_lines_append)
  also have "fresh_lines (p @ r) ?S' = fresh_lines p ?S' @ fresh_lines r (?S' \<union> {l \<in> set p. l \<noteq> []})"
    by (rule fresh_lines_append)
  also have "?S' \<union> {l \<in> set p. l \<noteq> []} = ?S'" by auto
  finally have "fresh_lines (p @ p @ r) S = fresh_lines p S @ fresh_lines r ?S'"
    using again by simp
  also have "\<dots> = fresh_lines (p @ r) S"
    by (rule fresh_lines_append [symmetric])
  finally show ?thesis unfolding zs .
qed

lemma fresh_lines_concat_prefixes:
  assumes "\<forall>p\<in>set ps. prefix p zs"
  shows "fresh_lines (concat ps @ zs) S = fresh_lines zs S"
  using assms
proof (induction ps arbitrary: S)
  case Nil
  then show ?case by simp
next
  case (Cons p ps)
  let ?S' = "S \<union> {l \<in> set p. l \<noteq> []}"
  from Cons.prems have p: "prefix p zs" and rest: "\<forall>p\<in>set ps. prefix p zs" by simp_all
  have "fresh_lines (concat (p # ps) @ zs) S = fresh_lines (p @ (concat ps @ zs)) S"
    by simp
  also have "\<dots> = fresh_lines p S @ fresh_lines (concat ps @ zs) ?S'"
    by (rule fresh_lines_append)
  also have "fresh_lines (concat ps @ zs) ?S' = fresh_lines zs ?S'"
    by (rule Cons.IH [OF rest])
  also have "fresh_lines p S @ fresh_lines zs ?S' = fresh_lines (p @ zs) S"
    by (rule fresh_lines_append [symmetric])
  also have "\<dots> = fresh_lines zs S"
    by (rule fresh_lines_prefix [OF p])
  finally show ?case .
qed

lemma map_filter_app:
  "List.map_filter f (xs @ ys) = List.map_filter f xs @ List.map_filter f ys"
  by (simp add: List.map_filter_def)

lemma full_flow_step:
  assumes "t < timeout" and "chunk \<noteq> []"
  shows "full_flow_loop render timeout ((t, Data chunk) # evs) st
         = (if is_complete (decode (all_data st @ chunk))
            then Some (Completed,
                   \<lparr>all_data = all_data st @ chunk,
                    printed = printed st \<union> {l \<in> set (lines_of (all_data st @ chunk)). l \<noteq> []},
                    out = out st @ List.map_filter render
                            (fresh_lines (lines_of (all_data st @ chunk)) (printed st))\<rparr>)
            else full_flow_loop render timeout evs
                   \<lparr>all_data = all_data st @ chunk,
                    printed = printed st \<union> {l \<in> set (lines_of (all_data st @ chunk)). l \<noteq> []},
                    out = out st @ List.map_filter render
                            (fresh_lines (lines_of (all_data st @ chunk)) (printed st))\<rparr>)"
  using assms by (simp add: for_lines_fresh Let_def)

lemma full_flow_terminal:
  assumes "\<not> t < timeout \<or> r = SocketTimeout \<or> r = OtherException \<or> r = Data []"
  shows "\<exists>reason. full_flow_loop render timeout ((t, r) # evs) st = Some (reason, st)"
  using assms by (cases r) auto

lemma prefixes_tl_Cons: "tl (prefixes (b # xs)) = [b] # map ((#) b) (tl (prefixes xs))"
  by (cases xs) simp_all

lemma tl_prefixes_nonempty: "p \<in> set (tl (prefixes xs)) \<Longrightarrow> p \<noteq> [] \<and> prefix p xs"
  by (cases xs) auto

lemma one_byte_reads_Cons:
  "one_byte_reads (t # ts) (b # bs) = (t, Data [b]) # one_byte_reads ts bs"
  by (simp add: one_byte_reads_def)

lemma one_byte_front:
  assumes "length ts = length front" and "\<forall>t\<in>set ts. t < timeout"
    and "\<forall>p. prefix p front \<and> p \<noteq> [] \<longrightarrow> \<not> is_complete (decode (all_data st @ p))"
  shows "full_flow_loop render timeout (one_byte_reads ts front @ rest) st
         = full_flow_loop render timeout rest
             \<lparr>all_data = all_data st @ front,
              printed = printed st
                \<union> {l \<in> set (concat (map (\<lambda>p. lines_of (all_data st @ p)) (tl (prefixes front)))). l \<noteq> []},
              out = out st @ List.map_filter render
                      (fresh_lines (concat (map (\<lambda>p. lines_of (all_data st @ p)) (tl (prefixes front))))
                         (printed st))\<rparr>"
  using assms
proof (induction front arbitrary: ts st)
  case Nil
  have same: "\<lparr>all_data = all_data st, printed = printed st, out = out st\<rparr> = st"
    by (cases st) simp
  show ?case by (simp add: one_byte_reads_def List.map_filter_simps same)
next
  case (Cons b front)
  from Cons.prems(1) obtain t ts' where ts: "ts = t # ts'" and len: "length ts' = length front"
    by (cases ts) auto
  from Cons.prems(2) ts have t: "t < timeout" and ts': "\<forall>t\<in>set ts'. t < timeout" by simp_all
  have nc: "\<not> is_complete (decode (all_data st @ [b]))"
    using Cons.prems(3) [rule_format, of "[b]"] by simp
  let ?L1 = "lines_of (all_data st @ [b])"
  let ?st1 = "\<lparr>all_data = all_data st @ [b],
              printed = printed st \<union> {l \<in> set ?L1. l \<noteq> []},
              out = out st @ List.map_filter render (fresh_lines ?L1 (printed st))\<rparr>"
  let ?C' = "concat (map (\<lambda>p. lines_of (all_data ?st1 @ p)) (tl (prefixes front)))"
  have step: "full_flow_loop render timeout (one_byte_reads ts (b # front) @ rest) st
              = full_flow_loop render timeout (one_byte_reads ts' front @ rest) ?st1"
    unfolding ts one_byte_reads_Cons using full_flow_step [OF t, of "[b]" render _ st] nc
    by simp
  have pre: "\<forall>p. prefix p front \<and> p \<noteq> [] \<longrightarrow> \<not> is_complete (decode (all_data ?st1 @ p))"
  proof (intro allI impI)
    fix p assume "prefix p front \<and> p \<noteq> []"
    then have "prefix (b # p) (b # front) \<and> b # p \<noteq> []" by simp
    from Cons.prems(3) [rule_format, OF this]
    show "\<not> is_complete (decode (all_data ?st1 @ p))" by simp
  qed
  have C: "concat (map (\<lambda>p. lines_of (all_data st @ p)) (tl (prefixes (b # front)))) = ?L1 @ ?C'"
    unfolding prefixes_tl_Cons by (simp add: comp_def)
  have "full_flow_loop render timeout (one_byte_reads ts' front @ rest) ?st1
        = full_flow_loop render timeout rest
             \<lparr>all_data = all_data ?st1 @ front,
              printed = printed ?st1 \<union> {l \<in> set ?C'. l \<noteq> []},
              out = out ?st1 @ List.map_filter render (fresh_lines ?C' (printed ?st1))\<rparr>"
    by (rule Cons.IH [OF len ts' pre])
  also have "all_data ?st1 @ front = all_data st @ b # front" by simp
  also have "printed ?st1 \<union> {l \<in> set ?C'. l \<noteq> []}
             = printed st \<union> {l \<in> set (?L1 @ ?C'). l \<noteq> []}"
    by auto
  also have "out ?st1 @ List.map_filter render (fresh_lines ?C' (printed ?st1))
             = out st @ List.map_filter render (fresh_lines (?L1 @ ?C') (printed st))"
    by (simp add: fresh_lines_append map_filter_app)
  finally show ?case
    unfolding step C .
qed

lemma emitted_by_prefixes:
  assumes "\<forall>p. strict_prefix p bs \<and> p \<noteq> [] \<longrightarrow>
             prefix (filter (\<lambda>l. l \<noteq> [] \<and> render l \<noteq> None) (lines_of p))
                    (filter (\<lambda>l. l \<noteq> [] \<and> render l \<noteq> None) (lines_of bs))"
    and "bs = front @ [lb]"
  shows "List.map_filter render
           (fresh_lines (concat (map lines_of (tl (prefixes front))) @ lines_of bs) {})
         = List.map_filter render (fresh_lines (lines_of bs) {})"
proof -
  let ?E = "\<lambda>l. l \<noteq> [] \<and> render l \<noteq> None"
  let ?ps = "map (\<lambda>p. filter ?E (lines_of p)) (tl (prefixes front))"
  have each: "\<forall>x\<in>set ?ps. prefix x (filter ?E (lines_of bs))"
  proof
    fix x assume "x \<in> set ?ps"
    then obtain p where p: "p \<in> set (tl (prefixes front))" and x: "x = filter ?E (lines_of p)"
      by auto
    from tl_prefixes_nonempty [OF p] have "p \<noteq> []" and "prefix p front" by simp_all
    then have "strict_prefix p bs \<and> p \<noteq> []"
      unfolding assms(2) by (auto simp: strict_prefix_def prefix_def)
    from assms(1) [rule_format, OF this] x show "prefix x (filter ?E (lines_of bs))" by simp
  qed
  have fc: "filter ?E (concat (map lines_of (tl (prefixes front))) @ lines_of bs)
            = concat ?ps @ filter ?E (lines_of bs)"
    by (simp add: filter_concat comp_def)
  have "List.map_filter render
           (fresh_lines (concat (map lines_of (tl (prefixes front))) @ lines_of bs) {})
        = List.map_filter render (fresh_lines (concat ?ps @ filter ?E (lines_of bs)) {})"
    by (subst map_filter_fresh) (simp only: fc)
  also have "fresh_lines (concat ?ps @ filter ?E (lines_of bs)) {}
             = fresh_lines (filter ?E (lines_of bs)) {}"
    by (rule fresh_lines_concat_prefixes [OF each])
  also have "List.map_filter render (fresh_lines (filter ?E (lines_of bs)) {})
             = List.map_filter render (fresh_lines (lines_of bs) {})"
    by (rule map_filter_fresh [symmetric])
  finally show ?thesis .
qed

lemma one_byte_reads_snoc:
  assumes "length ts = length front"
  shows "one_byte_reads (ts @ [t]) (front @ [b]) = one_byte_reads ts front @ [(t, Data [b])]"
  using assms by (simp add: one_byte_reads_def)

lemma one_byte_reads_append:
  assumes "length ts1 = length xs"
  shows "one_byte_reads (ts1 @ ts2) (xs @ ys) = one_byte_reads ts1 xs @ one_byte_reads ts2 ys"
  using assms by (simp add: one_byte_reads_def)

text \<open>
  Claim C2, as the code has it. Let a response reach \<open>send_command\<close> of
  test\_full\_flow.py either one byte per \<^verbatim>\<open>recv\<close> or in one chunk, all reads before the
  deadline, with the session ending after the response (the whole response is complete, or
  the next event is the deadline, a timeout, an exception or a closed connection). Read
  byte by byte, the loop stops at the first prefix \<open>stop\<close> of the response on which the
  completion test matches, or reads the whole response when there is none. If up to \<open>stop\<close>
  the lines for which the handler prints something only grow (those of a shorter prefix
  are an initial segment of those of \<open>stop\<close>), and \<open>stop\<close> already holds all such lines of
  the whole response, then both deliveries print the same sequence of events: those of the
  distinct non-empty lines of the response, in order. The returned text is the decoded
  \<open>stop\<close> in one case and the decoded response in the other.
\<close>

theorem one_byte_delivery_same_events:
  assumes "stop \<noteq> []" and "prefix stop bs"
    and "length ts = length bs" and "\<forall>t\<in>set ts. t < timeout" and "t0 < timeout"
    and "\<forall>p. strict_prefix p stop \<and> p \<noteq> [] \<longrightarrow> \<not> is_complete (decode p)"
    and "stop = bs \<or> is_complete (decode stop)"
    and "\<forall>p. strict_prefix p stop \<and> p \<noteq> [] \<longrightarrow>
           prefix (filter (\<lambda>l. l \<noteq> [] \<and> render l \<noteq> None) (lines_of p))
                  (filter (\<lambda>l. l \<noteq> [] \<and> render l \<noteq> None) (lines_of stop))"
    and "filter (\<lambda>l. l \<noteq> [] \<and> render l \<noteq> None) (lines_of stop)
         = filter (\<lambda>l. l \<noteq> [] \<and> render l \<noteq> None) (lines_of bs)"
    and "is_complete (decode bs)
         \<or> (\<exists>t r rest'. rest = (t, r) # rest'
               \<and> (\<not> t < timeout \<or> r = SocketTimeout \<or> r = OtherException \<or> r = Data []))"
  shows "full_flow_send_command render timeout
           \<lparr>connect_ok = True, send_ok = True, events = one_byte_reads ts bs @ rest\<rparr>
         = Some (1, Returned (List.map_filter render (fresh_lines (lines_of bs) {}), decode stop))
       \<and> full_flow_send_command render timeout
           \<lparr>connect_ok = True, send_ok = True, events = (t0, Data bs) # rest\<rparr>
         = Some (1, Returned (List.map_filter render (fresh_lines (lines_of bs) {}), decode bs))"
proof -
  let ?init = "\<lparr>all_data = [], printed = {}, out = []\<rparr> :: 'a loop_state"
  from assms(2) obtain tail where bs: "bs = stop @ tail"
    by (auto simp: prefix_def)
  have bsne: "bs \<noteq> []" using assms(1) bs by simp
  have terminal: "\<exists>reason. full_flow_loop render timeout rest st = Some (reason, st)"
    if "\<not> is_complete (decode bs)" for st :: "'a loop_state"
  proof -
    from that assms(10) obtain t r rest' where "rest = (t, r) # rest'"
      and "\<not> t < timeout \<or> r = SocketTimeout \<or> r = OtherException \<or> r = Data []"
      by blast
    with full_flow_terminal [of t timeout r render rest' st] show ?thesis by simp
  qed
  \<comment> \<open>one chunk\<close>
  let ?stS = "\<lparr>all_data = bs, printed = {l \<in> set (lines_of bs). l \<noteq> []},
               out = List.map_filter render (fresh_lines (lines_of bs) {})\<rparr>"
  have "full_flow_loop render timeout ((t0, Data bs) # rest) ?init
        = (if is_complete (decode bs) then Some (Completed, ?stS)
           else full_flow_loop render timeout rest ?stS)"
    using full_flow_step [OF assms(5) bsne, of render rest ?init] by simp
  with terminal [of ?stS]
  obtain r1 where single: "full_flow_loop render timeout ((t0, Data bs) # rest) ?init = Some (r1, ?stS)"
    by (cases "is_complete (decode bs)") auto
  \<comment> \<open>one byte per read, up to the prefix at which the loop stops\<close>
  define ts1 where "ts1 = take (length stop) ts"
  define ts2 where "ts2 = drop (length stop) ts"
  define front where "front = butlast stop"
  define lb where "lb = last stop"
  define tsf where "tsf = butlast ts1"
  define tlast where "tlast = last ts1"
  have stop: "stop = front @ [lb]"
    using assms(1) by (simp add: front_def lb_def)
  have len1: "length ts1 = length stop"
    using assms(3) by (simp add: ts1_def bs)
  have ts: "ts = ts1 @ ts2"
    by (simp add: ts1_def ts2_def)
  have "ts1 \<noteq> []" using len1 assms(1) by auto
  then have ts1: "ts1 = tsf @ [tlast]"
    by (simp add: tsf_def tlast_def)
  have len: "length tsf = length front"
    using len1 by (simp add: tsf_def front_def)
  have "\<forall>t\<in>set ts1. t < timeout"
    using assms(4) unfolding ts by simp
  then have tsf: "\<forall>t\<in>set tsf. t < timeout" and tlast: "tlast < timeout"
    unfolding ts1 by simp_all
  let ?after = "one_byte_reads ts2 tail @ rest"
  have "one_byte_reads ts bs = one_byte_reads ts1 stop @ one_byte_reads ts2 tail"
    unfolding ts bs by (rule one_byte_reads_append [OF len1])
  also have "one_byte_reads ts1 stop = one_byte_reads tsf front @ [(tlast, Data [lb])]"
    unfolding ts1 stop by (rule one_byte_reads_snoc [OF len])
  finally have evs: "one_byte_reads ts bs @ rest
                     = one_byte_reads tsf front @ ((tlast, Data [lb]) # ?after)"
    by simp
  have nofront: "\<forall>p. prefix p front \<and> p \<noteq> [] \<longrightarrow> \<not> is_complete (decode (all_data ?init @ p))"
  proof (intro allI impI)
    fix p assume "prefix p front \<and> p \<noteq> []"
    then have "strict_prefix p stop \<and> p \<noteq> []"
      unfolding stop by (auto simp: strict_prefix_def prefix_def)
    from assms(6) [rule_format, OF this] show "\<not> is_complete (decode (all_data ?init @ p))"
      by simp
  qed
  let ?CF = "concat (map lines_of (tl (prefixes front)))"
  let ?stF = "\<lparr>all_data = front, printed = {l \<in> set ?CF. l \<noteq> []},
               out = List.map_filter render (fresh_lines ?CF {})\<rparr>"
  let ?stB = "\<lparr>all_data = stop,
               printed = {l \<in> set ?CF. l \<noteq> []} \<union> {l \<in> set (lines_of stop). l \<noteq> []},
               out = List.map_filter render (fresh_lines ?CF {})
                     @ List.map_filter render
                         (fresh_lines (lines_of stop) {l \<in> set ?CF. l \<noteq> []})\<rparr>"
  have "full_flow_loop render timeout (one_byte_reads tsf front @ ((tlast, Data [lb]) # ?after)) ?init
        = full_flow_loop render timeout ((tlast, Data [lb]) # ?after) ?stF"
    using one_byte_front [OF len tsf nofront, of render "(tlast, Data [lb]) # ?after"] by simp
  also have "full_flow_loop render timeout ((tlast, Data [lb]) # ?after) ?stF
        = (if is_complete (decode stop) then Some (Completed, ?stB)
           else full_flow_loop render timeout ?after ?stB)"
    using full_flow_step [OF tlast, of "[lb]" render ?after ?stF] by (simp add: stop)
  finally have run: "full_flow_loop render timeout (one_byte_reads ts bs @ rest) ?init
        = (if is_complete (decode stop) then Some (Completed, ?stB)
           else full_flow_loop render timeout ?after ?stB)"
    unfolding evs .
  have "\<exists>r2. full_flow_loop render timeout (one_byte_reads ts bs @ rest) ?init = Some (r2, ?stB)"
  proof (cases "is_complete (decode stop)")
    case True
    with run show ?thesis by simp
  next
    case False
    with assms(7) have whole: "stop = bs" by simp
    with bs have "tail = []" by simp
    then have "?after = rest" by (simp add: one_byte_reads_def)
    moreover from False whole have "\<not> is_complete (decode bs)" by simp
    from terminal [OF this, of ?stB]
    obtain r2 where "full_flow_loop render timeout rest ?stB = Some (r2, ?stB)" by blast
    ultimately show ?thesis using run False by simp
  qed
  then obtain r2 where bytes: "full_flow_loop render timeout (one_byte_reads ts bs @ rest) ?init
                          = Some (r2, ?stB)"
    by blast
  have "out ?stB = List.map_filter render (fresh_lines (?CF @ lines_of stop) {})"
    by (simp add: fresh_lines_append map_filter_app)
  also have "\<dots> = List.map_filter render (fresh_lines (lines_of stop) {})"
    by (rule emitted_by_prefixes [OF assms(8) stop])
  also have "\<dots> = List.map_filter render
                     (fresh_lines (filter (\<lambda>l. l \<noteq> [] \<and> render l \<noteq> None) (lines_of stop)) {})"
    by (rule map_filter_fresh)
  also have "\<dots> = List.map_filter render
                     (fresh_lines (filter (\<lambda>l. l \<noteq> [] \<and> render l \<noteq> None) (lines_of bs)) {})"
    by (simp only: assms(9))
  also have "\<dots> = List.map_filter render (fresh_lines (lines_of bs) {})"
    by (rule map_filter_fresh [symmetric])
  finally have outB: "out ?stB = List.map_filter render (fresh_lines (lines_of bs) {})" .
  from single have s: "full_flow_send_command render timeout
           \<lparr>connect_ok = True, send_ok = True, events = (t0, Data bs) # rest\<rparr>
         = Some (1, Returned (List.map_filter render (fresh_lines (lines_of bs) {}), decode bs))"
    by (simp add: full_flow_send_command_def)
  from bytes have "full_flow_send_command render timeout
           \<lparr>connect_ok = True, send_ok = True, events = one_byte_reads ts bs @ rest\<rparr>
         = Some (1, Returned (out ?stB, decode (all_data ?stB)))"
    by (simp add: full_flow_send_command_def)
  with outB have b: "full_flow_send_command render timeout
           \<lparr>connect_ok = True, send_ok = True, events = one_byte_reads ts bs @ rest\<rparr>
         = Some (1, Returned (List.map_filter render (fresh_lines (lines_of bs) {}), decode stop))"
    by simp
  from b s show ?thesis by blast
qed

lemma strict_prefix_in_prefixes:
  "strict_prefix p bs \<and> p \<noteq> [] \<Longrightarrow> p \<in> set (prefixes bs) \<and> p \<noteq> bs \<and> p \<noteq> []"
  by (auto simp: in_set_prefixes strict_prefix_def)

theorem one_byte_delivery_same_events_witness:
  \<open>full_flow_send_command log_x_render 120
      \<lparr>connect_ok = True, send_ok = True,
       events = one_byte_reads [0..<33]
                  (bytes_of ''{"log":"x"}'' @ [10] @ bytes_of ''{"status":"success"}'' @ [10])
                @ []\<rparr>
    = Some (1, Returned ([str ''  LOG: x''],
                         str ''{"log":"x"}'' @ [10] @ str ''{"status":"success"}''))
   \<and> full_flow_send_command log_x_render 120
      \<lparr>connect_ok = True, send_ok = True,
       events = (0, Data (bytes_of ''{"log":"x"}'' @ [10] @ bytes_of ''{"status":"success"}'' @ [10]))
                # []\<rparr>
    = Some (1, Returned ([str ''  LOG: x''],
                         str ''{"log":"x"}'' @ [10] @ str ''{"status":"success"}'' @ [10]))\<close>
proof -
  let ?stop = \<open>bytes_of ''{"log":"x"}'' @ [10] @ bytes_of ''{"status":"success"}''\<close>
  let ?bs = \<open>bytes_of ''{"log":"x"}'' @ [10] @ bytes_of ''{"status":"success"}'' @ [10]\<close>
  let ?E = "\<lambda>l. l \<noteq> [] \<and> log_x_render l \<noteq> None"
  have h1: "?stop \<noteq> []" by (simp add: bytes_of_def)
  have h2: "prefix ?stop ?bs" by (simp add: bytes_of_def)
  have h3: "length [0..<33] = length ?bs" by (simp add: bytes_of_def)
  have h4: "\<forall>t\<in>set [0..<33]. t < (120::nat)" by simp
  have h5: "(0::nat) < 120" by simp
  have a: "\<forall>p\<in>set (prefixes ?stop). p \<noteq> ?stop \<and> p \<noteq> [] \<longrightarrow> \<not> is_complete (decode p)"
    by (simp add: is_complete_def endswith_brace_def text_eval)
  have h6: "\<forall>p. strict_prefix p ?stop \<and> p \<noteq> [] \<longrightarrow> \<not> is_complete (decode p)"
    using a strict_prefix_in_prefixes by blast
  have h7: "?stop = ?bs \<or> is_complete (decode ?stop)"
    by (simp add: is_complete_def endswith_brace_def text_eval)
  have whole: \<open>filter ?E (lines_of ?stop) = [str ''{"log":"x"}'']\<close>
    by (simp add: log_x_render_def text_eval del: split_nl.simps(2))
  have b: "\<forall>p\<in>set (prefixes ?stop). p \<noteq> ?stop \<and> p \<noteq> [] \<longrightarrow>
             prefix (filter ?E (lines_of p)) (filter ?E (lines_of ?stop))"
    unfolding whole by (simp add: log_x_render_def text_eval del: split_nl.simps(2))
  have h8: "\<forall>p. strict_prefix p ?stop \<and> p \<noteq> [] \<longrightarrow>
              prefix (filter ?E (lines_of p)) (filter ?E (lines_of ?stop))"
    using b strict_prefix_in_prefixes by blast
  have h9: "filter ?E (lines_of ?stop) = filter ?E (lines_of ?bs)"
    unfolding whole by (simp add: log_x_render_def text_eval del: split_nl.simps(2))
  have h10: "is_complete (decode ?bs)
         \<or> (\<exists>t r rest'. ([]::event list) = (t, r) # rest'
               \<and> (\<not> t < (120::nat) \<or> r = SocketTimeout \<or> r = OtherException \<or> r = Data []))"
    by (simp add: is_complete_def endswith_brace_def text_eval)
  have ev: "List.map_filter log_x_render (fresh_lines (lines_of ?bs) {}) = [str ''  LOG: x'']"
    by (simp add: log_x_render_def List.map_filter_simps text_eval del: split_nl.simps(2))
  have dec1: \<open>decode ?stop = str ''{"log":"x"}'' @ [10] @ str ''{"status":"success"}''\<close>
    by (simp add: text_eval)
  have dec2: \<open>decode ?bs = str ''{"log":"x"}'' @ [10] @ str ''{"status":"success"}'' @ [10]\<close>
    by (simp add: text_eval)
  note r = one_byte_delivery_same_events [OF h1 h2 h3 h4 h5 h6 h7 h8 h9 h10, unfolded ev]
  from r show ?thesis
    unfolding dec1 dec2 .
qed

text \<open>
  Without these conditions the deliveries print different events. The first response is
  complete after its first object: read byte by byte, the loop stops there and the log line
  is never read, while one chunk prints it. In the second response the object is followed
  by more text on the same line: read byte by byte, the line is handled when it is still
  the bare object and the log message is printed, while in one chunk the line does not
  parse and nothing is printed.
\<close>

theorem one_byte_delivery_counterexample:
  \<open>full_flow_send_command log_x_render 120
      \<lparr>connect_ok = True, send_ok = True,
       events = one_byte_reads [0..<32]
                  (bytes_of ''{"status":"success"}'' @ [10] @ bytes_of ''{"log":"x"}'')\<rparr>
    = Some (1, Returned ([], str ''{"status":"success"}''))
   \<and> full_flow_send_command log_x_render 120
      \<lparr>connect_ok = True, send_ok = True,
       events = [(0, Data (bytes_of ''{"status":"success"}'' @ [10] @ bytes_of ''{"log":"x"}''))]\<rparr>
    = Some (1, Returned ([str ''  LOG: x''],
                         str ''{"status":"success"}'' @ [10] @ str ''{"log":"x"}''))
   \<and> full_flow_send_command log_x_render 120
      \<lparr>connect_ok = True, send_ok = True,
       events = one_byte_reads [0..<13] (bytes_of ''{"log":"x"} y'') @ [(20, Data [])]\<rparr>
    = Some (1, Returned ([str ''  LOG: x''], str ''{"log":"x"} y''))
   \<and> full_flow_send_command log_x_render 120
      \<lparr>connect_ok = True, send_ok = True,
       events = [(0, Data (bytes_of ''{"log":"x"} y'')), (20, Data [])]\<rparr>
    = Some (1, Returned ([], str ''{"log":"x"} y''))\<close>
  by (simp add: full_flow_send_command_def one_byte_reads_def log_x_render_def is_complete_def
        endswith_brace_def Let_def upt_conv_Cons text_eval del: split_nl.simps(2))

end
